theory Spec2Isabelle
  imports Main "HOL-Library.Sublist" "HOL-Library.AList"
begin

section \<open>Python string primitives used by the documentation generator\<close>

text \<open>
  A Python \<open>str\<close> is modelled as a \<open>string\<close> whose characters are the code points
  below 256. The whitespace characters are the code points below 256 for which
  \<open>str.isspace\<close> holds; \<open>str.strip\<close> and the regular-expression class \<open>\s\<close>
  both use exactly this set.
\<close>

definition nl :: char where
  "nl = CHR 0x0A"

definition isspace :: "char \<Rightarrow> bool" where
  "isspace c = (c \<in> set [CHR 0x09, CHR 0x0A, CHR 0x0B, CHR 0x0C, CHR 0x0D,
                           CHR 0x1C, CHR 0x1D, CHR 0x1E, CHR 0x1F, CHR 0x20,
                           CHR 0x85, CHR 0xA0])"

text \<open>\<open>s.strip()\<close>: whitespace is removed at both ends.\<close>

definition strip :: "string \<Rightarrow> string" where
  "strip s = rev (dropWhile isspace (rev (dropWhile isspace s)))"

text \<open>\<open>s.startswith(p)\<close> and \<open>s.endswith(p)\<close>.\<close>

definition startswith :: "string \<Rightarrow> string \<Rightarrow> bool" where
  "startswith s p = prefix p s"

definition endswith :: "string \<Rightarrow> string \<Rightarrow> bool" where
  "endswith s p = suffix p s"

text \<open>\<open>s.split('\n')\<close>: the result always has at least one element.\<close>

fun split_nl :: "string \<Rightarrow> string list" where
  "split_nl [] = [[]]"
| "split_nl (c # cs) =
     (if c = nl then [] # split_nl cs
      else (case split_nl cs of [] \<Rightarrow> [[c]] | l # ls \<Rightarrow> (c # l) # ls))"

text \<open>\<open>'\n'.join(xs)\<close>.\<close>

fun join_nl :: "string list \<Rightarrow> string" where
  "join_nl [] = []"
| "join_nl [x] = x"
| "join_nl (x # y # ys) = x @ nl # join_nl (y # ys)"

text \<open>\<open>s.replace(c, '\\' + c)\<close> for a single character \<open>c\<close>: every occurrence of the
  character gets a backslash in front.\<close>

definition backslash_char :: "char \<Rightarrow> string \<Rightarrow> string" where
  "backslash_char q s = concat (map (\<lambda>c. if c = q then [CHR 0x5C, q] else [c]) s)"

text \<open>\<open>text.replace("'", "\\'").replace('"', '\\"')\<close>.\<close>

definition escape_quotes :: "string \<Rightarrow> string" where
  "escape_quotes s = backslash_char (CHR 0x22) (backslash_char (CHR 0x27) s)"

section \<open>The doc-output cleaner: \<open>clean_go_doc_output\<close>\<close>

text \<open>The local variables of the loop of \<open>clean_go_doc_output\<close>.\<close>

record cleaner =
  cleaned_lines :: "string list"
  in_code_block :: bool
  code_block_content :: "string list"
  constants_removed :: bool
  types_removed :: bool

definition fence :: string where
  "fence = ''```''"

definition cleaner_init :: cleaner where
  "cleaner_init = \<lparr>cleaned_lines = [], in_code_block = False, code_block_content = [],
                    constants_removed = False, types_removed = False\<rparr>"

text \<open>The test that a stripped line starts a code block.\<close>

definition is_declaration :: "string \<Rightarrow> bool" where
  "is_declaration stripped_line =
     (startswith stripped_line ''func '' \<or>
      startswith stripped_line ''type '' \<or>
      startswith stripped_line ''const '' \<or>
      startswith stripped_line ''var '' \<or>
      startswith stripped_line ''package '' \<or>
      startswith stripped_line ''import '')"

text \<open>Closing the block that is open when a declaration line arrives.\<close>

definition close_open_block :: "cleaner \<Rightarrow> cleaner" where
  "close_open_block st =
     (if in_code_block st then
        (if code_block_content st \<noteq> [] then
           st\<lparr>cleaned_lines := cleaned_lines st @ [fence] @ code_block_content st @ [fence]\<rparr>
         else st)\<lparr>in_code_block := False, code_block_content := []\<rparr>
      else st)"

text \<open>One iteration of \<open>for line in lines\<close>; each \<open>continue\<close> returns the state.\<close>

definition clean_step :: "cleaner \<Rightarrow> string \<Rightarrow> cleaner" where
  "clean_step st line =
     (if cleaned_lines st = [] \<and> strip line = [] then st
      else if \<not> constants_removed st \<and> strip line = ''CONSTANTS'' then
        st\<lparr>constants_removed := True\<rparr>
      else if \<not> types_removed st \<and> strip line = ''TYPES'' then
        st\<lparr>types_removed := True\<rparr>
      else if is_declaration (strip line) then
        (close_open_block st)\<lparr>in_code_block := True, code_block_content := [strip line]\<rparr>
      else if in_code_block st then
        (if strip line \<noteq> [] then
           st\<lparr>code_block_content := code_block_content st @ [strip line]\<rparr>
         else st\<lparr>code_block_content := code_block_content st @ [[]]\<rparr>)
      else if startswith (strip line) ''//'' then
        (if strip (drop 2 (strip line)) \<noteq> [] then
           st\<lparr>cleaned_lines := cleaned_lines st @
                 [''*'' @ escape_quotes (strip (drop 2 (strip line))) @ ''*'']\<rparr>
         else st)
      else if strip line \<noteq> [] then
        st\<lparr>cleaned_lines := cleaned_lines st @ [escape_quotes (strip line)]\<rparr>
      else st)"

definition clean_loop :: "cleaner \<Rightarrow> string list \<Rightarrow> cleaner" where
  "clean_loop st lines = foldl clean_step st lines"

text \<open>After the loop: "Close any remaining code block".\<close>

definition close_remaining :: "cleaner \<Rightarrow> string list" where
  "close_remaining st =
     (if in_code_block st \<and> code_block_content st \<noteq> [] then
        cleaned_lines st @ [fence] @ code_block_content st @ [fence]
      else cleaned_lines st)"

text \<open>The lines the loop sees: the split input without its first line.\<close>

definition input_lines :: "string \<Rightarrow> string list" where
  "input_lines doc_output =
     (let lines = split_nl doc_output in if lines \<noteq> [] then drop 1 lines else lines)"

text \<open>The state of the local variables when the loop has ended.\<close>

definition cleaner_at_end :: "string \<Rightarrow> cleaner" where
  "cleaner_at_end doc_output = clean_loop cleaner_init (input_lines doc_output)"

definition clean_go_doc_output :: "string \<Rightarrow> string" where
  "clean_go_doc_output doc_output =
     (if doc_output = [] then []
      else strip (join_nl (close_remaining (cleaner_at_end doc_output))))"

section \<open>Auxiliary predicates for the proofs\<close>

text \<open>A string with no whitespace at either end.\<close>

definition trimmed :: "string \<Rightarrow> bool" where
  "trimmed s = (s \<noteq> [] \<and> \<not> isspace (hd s) \<and> \<not> isspace (last s))"

text \<open>What the loop of the cleaner keeps true of its variables.\<close>

definition cleaner_inv :: "cleaner \<Rightarrow> bool" where
  "cleaner_inv st =
     ((in_code_block st \<longleftrightarrow> code_block_content st \<noteq> []) \<and>
      (cleaned_lines st \<noteq> [] \<longrightarrow>
         trimmed (hd (cleaned_lines st)) \<and> trimmed (last (cleaned_lines st))) \<and>
      (\<forall>x\<in>set (cleaned_lines st). nl \<notin> set x) \<and>
      (\<forall>x\<in>set (code_block_content st). nl \<notin> set x))"

section \<open>The divider rule, as the specification words it\<close>

text \<open>
  "The literal tokens CONSTANTS and TYPES are each removed exactly once (first
  occurrence only)": the lines without the first line that strips to \<open>CONSTANTS\<close> and
  without the first line that strips to \<open>TYPES\<close>. The two flags say which of the two
  dividers has been dropped already.
\<close>

fun drop_first_dividers :: "bool \<Rightarrow> bool \<Rightarrow> string list \<Rightarrow> string list" where
  "drop_first_dividers c t [] = []"
| "drop_first_dividers c t (l # ls) =
     (if \<not> c \<and> strip l = ''CONSTANTS'' then drop_first_dividers True t ls
      else if \<not> t \<and> strip l = ''TYPES'' then drop_first_dividers c True ls
      else l # drop_first_dividers c t ls)"

text \<open>The loop variables when both dividers count as removed: only the other rules of
  the loop apply from such a state.\<close>

definition dividers_done :: cleaner where
  "dividers_done = cleaner_init\<lparr>constants_removed := True, types_removed := True\<rparr>"

text \<open>
  What an open code block takes from a run of non-declaration lines: every line,
  stripped, but the lines that the loop skips, namely a first divider that is still to
  be dropped and, as long as nothing has been emitted, the blank lines.
\<close>

definition block_lines :: "cleaner \<Rightarrow> string list \<Rightarrow> string list" where
  "block_lines st run =
     map strip
       (filter (\<lambda>line. cleaned_lines st \<noteq> [] \<or> strip line \<noteq> [])
         (drop_first_dividers (constants_removed st) (types_removed st) run))"

section \<open>The README sectionizer: \<open>extract_readme_content\<close>\<close>

text \<open>\<open>str.lower\<close> on the code points below 256: the ASCII capitals and the Latin-1
  capitals (all of 0xC0 to 0xDE but the multiplication sign 0xD7) move up by 32.\<close>

definition lower_char :: "char \<Rightarrow> char" where
  "lower_char c =
     (let n = (of_char c :: nat) in
      if (65 \<le> n \<and> n \<le> 90) \<or> (192 \<le> n \<and> n \<le> 222 \<and> n \<noteq> 215)
      then char_of (n + 32) else c)"

definition lower :: "string \<Rightarrow> string" where
  "lower s = map lower_char s"

text \<open>\<open>re.sub(r'[^a-z0-9\s-]', '', s)\<close>: only lower-case ASCII letters, digits,
  whitespace and hyphens are kept.\<close>

definition name_char :: "char \<Rightarrow> bool" where
  "name_char c =
     (let n = (of_char c :: nat) in
      (97 \<le> n \<and> n \<le> 122) \<or> (48 \<le> n \<and> n \<le> 57) \<or> isspace c \<or> c = CHR ''-'')"

definition strip_other_chars :: "string \<Rightarrow> string" where
  "strip_other_chars s = filter name_char s"

text \<open>\<open>re.sub(r'\s+', '-', s)\<close>: every maximal run of whitespace becomes one hyphen.\<close>

function whitespace_to_hyphen :: "string \<Rightarrow> string" where
  "whitespace_to_hyphen [] = []"
| "whitespace_to_hyphen (c # cs) =
     (if isspace c then CHR ''-'' # whitespace_to_hyphen (dropWhile isspace cs)
      else c # whitespace_to_hyphen cs)"
  by pat_completeness auto
termination
  by (relation "measure length") (auto simp: length_dropWhile_le le_imp_less_Suc)

text \<open>The name of the section that a line \<open>## ...\<close> starts.\<close>

definition section_name :: "string \<Rightarrow> string" where
  "section_name line = whitespace_to_hyphen (strip_other_chars (lower (strip (drop 3 line))))"

text \<open>The dictionary \<open>sections\<close> keeps its keys in insertion order: an association list,
  where assigning to a key that is present keeps the key's place.\<close>

record sectionizer =
  sections :: "(string \<times> string list) list"
  current_section :: string

definition sectionizer_init :: sectionizer where
  "sectionizer_init = \<lparr>sections = [], current_section = ''introduction''\<rparr>"

definition readme_step :: "sectionizer \<Rightarrow> string \<Rightarrow> sectionizer" where
  "readme_step st line =
     (if startswith line ''## '' then
        \<lparr>sections = AList.update (section_name line) [] (sections st),
         current_section = section_name line\<rparr>
      else if startswith line ''# '' then
        \<lparr>sections = AList.update ''introduction'' [line] (sections st),
         current_section = ''introduction''\<rparr>
      else
        st\<lparr>sections :=
             AList.map_entry (current_section st) (\<lambda>ls. ls @ [line])
               (if map_of (sections st) (current_section st) = None
                then AList.update (current_section st) [] (sections st)
                else sections st)\<rparr>)"

text \<open>\<open>extract_readme_content\<close>; the argument is the text of README.md, or \<open>None\<close> when
  the file does not exist.\<close>

definition extract_readme_content :: "string option \<Rightarrow> (string \<times> string) list" where
  "extract_readme_content readme =
     (case readme of
        None \<Rightarrow> []
      | Some content \<Rightarrow>
          map (\<lambda>(section, lines). (section, strip (join_nl lines)))
            (sections (foldl readme_step sectionizer_init (split_nl content))))"

section \<open>The page writer: \<open>create_markdown_files\<close>\<close>

definition section_files :: "(string \<times> string) list" where
  "section_files =
     [(''introduction'', ''introduction.md''),
      (''installation'', ''installation.md''),
      (''authentication'', ''authentication.md''),
      (''regions'', ''regions.md''),
      (''global-services'', ''regions.md''),
      (''project-structure'', ''project-structure.md''),
      (''usage-examples'', ''usage.md''),
      (''error-handling'', ''error-handling.md''),
      (''contributing'', ''contributing.md'')]"

text \<open>
  \<open>str.title\<close> on the code points below 256. A character that follows a cased character
  is lowered; any other character gets its titlecase, which is the capital for the small
  ASCII and Latin-1 letters and the two letters \<open>Ss\<close> for the sharp s (0xDF). The cased
  characters are the ASCII and Latin-1 letters, the two ordinal indicators (0xAA, 0xBA)
  and the micro sign (0xB5). The titlecase of the micro sign and of 0xFF lies above
  code point 255; the model leaves these two characters as they are, so it agrees with
  \<open>str.title\<close> on the strings that hold neither of them.
\<close>

definition is_cased :: "char \<Rightarrow> bool" where
  "is_cased c =
     (let n = (of_char c :: nat) in
      (65 \<le> n \<and> n \<le> 90) \<or> (97 \<le> n \<and> n \<le> 122) \<or> n = 170 \<or> n = 181 \<or> n = 186 \<or>
      (192 \<le> n \<and> n \<le> 214) \<or> (216 \<le> n \<and> n \<le> 246) \<or> (248 \<le> n \<and> n \<le> 255))"

definition title_char :: "char \<Rightarrow> string" where
  "title_char c =
     (let n = (of_char c :: nat) in
      if (97 \<le> n \<and> n \<le> 122) \<or> (224 \<le> n \<and> n \<le> 254 \<and> n \<noteq> 247)
      then [char_of (n - 32)]
      else if n = 223 then ''Ss''
      else [c])"

fun title_from :: "bool \<Rightarrow> string \<Rightarrow> string" where
  "title_from previous_is_cased [] = []"
| "title_from previous_is_cased (c # cs) =
     (if previous_is_cased then [lower_char c] else title_char c) @
     title_from (is_cased c) cs"

definition title :: "string \<Rightarrow> string" where
  "title s = title_from False s"

text \<open>The strings on which the model of \<open>str.title\<close> is that of Python.\<close>

definition title_in_range :: "string \<Rightarrow> bool" where
  "title_in_range s = (CHR 0xB5 \<notin> set s \<and> CHR 0xFF \<notin> set s)"

text \<open>\<open>s.replace('-', ' ')\<close>.\<close>

definition hyphens_to_spaces :: "string \<Rightarrow> string" where
  "hyphens_to_spaces s = map (\<lambda>c. if c = CHR ''-'' then CHR '' '' else c) s"

text \<open>\<open>s.replace(old, new, 1)\<close>: the first occurrence only.\<close>

fun replace_first :: "string \<Rightarrow> string \<Rightarrow> string \<Rightarrow> string" where
  "replace_first old new [] = (if old = [] then new else [])"
| "replace_first old new (c # cs) =
     (if prefix old (c # cs) then new @ drop (length old) (c # cs)
      else c # replace_first old new cs)"

definition process_line :: "string \<Rightarrow> string" where
  "process_line line =
     (if startswith line ''### '' then replace_first ''### '' ''## '' line else line)"

definition markdown_content :: "string \<Rightarrow> string \<Rightarrow> string" where
  "markdown_content section content =
     (let title = title (hyphens_to_spaces section);
          processed_content = join_nl (map process_line (split_nl content))
      in ''---'' @ [nl] @ ''title: '' @ title @ [nl] @ ''---'' @ [nl] @ [nl] @
         ''# '' @ title @ [nl] @ [nl] @ processed_content @ [nl])"

text \<open>\<open>create_markdown_files\<close>: the files written, as pairs of file name and text, in
  the order of the writes.\<close>

definition create_markdown_files :: "(string \<times> string) list \<Rightarrow> (string \<times> string) list" where
  "create_markdown_files readme_sections =
     concat (map (\<lambda>(section, content).
        (case map_of section_files section of
           Some filename \<Rightarrow>
             if strip content \<noteq> [] then [(filename, markdown_content section content)]
             else []
         | None \<Rightarrow> [])) readme_sections)"

text \<open>The README of the example scenario.\<close>

definition readme_example :: string where
  "readme_example =
     ''# Title'' @ [nl] @ ''## Installation'' @ [nl] @ ''run this'' @ [nl] @
     ''## Usage'' @ [nl] @ ''do that''"

text \<open>The lines from the last level-1 heading line on; all lines when there is none.\<close>

fun since_last_title :: "string list \<Rightarrow> string list" where
  "since_last_title [] = []"
| "since_last_title (l # ls) =
     (if \<exists>x\<in>set ls. startswith x ''# '' then since_last_title ls else l # ls)"

section \<open>External commands, the environment and the log\<close>

text \<open>
  What a \<open>try\<close> block around \<open>subprocess.run\<close> can end with: the command completed with
  a return code and a standard output, the call ran into its time limit
  (\<open>subprocess.TimeoutExpired\<close>), or another exception was raised, for instance because
  the command is not installed; the exception carries its message.
\<close>

datatype run_outcome =
  Completed int string
| TimeoutExpired
| Raised string

datatype py_exception =
  AttributeError
| FileNotFoundError
| NotADirectoryError
| FileExistsError
| OSError

text \<open>A printed line: the marker at its start (the warning sign, the check mark or the
  broom, as a constructor) and the text after the marker. \<open>Warn_exception\<close> is a warning
  whose text ends with the message of the exception that was caught.\<close>

datatype log_line =
  Warn string
| Warn_exception string py_exception
| Done string
| Info string

text \<open>The environment variables that the generator reads; \<open>None\<close> is an unset
  variable.\<close>

record environ =
  READTHEDOCS :: "string option"
  VERSION :: "string option"
  READTHEDOCS_VERSION :: "string option"

definition is_readthedocs :: "environ \<Rightarrow> bool" where
  "is_readthedocs env = (READTHEDOCS env = Some ''True'')"

text \<open>The truth value of an optional string: \<open>None\<close> and the empty string are false.\<close>

definition truthy :: "string option \<Rightarrow> bool" where
  "truthy v = (case v of None \<Rightarrow> False | Some s \<Rightarrow> s \<noteq> [])"

section \<open>The version resolver: \<open>get_project_version\<close>\<close>

text \<open>\<open>get_project_version_from_git\<close>, given how \<open>git describe --tags\<close> ends.\<close>

definition get_project_version_from_git :: "run_outcome \<Rightarrow> string" where
  "get_project_version_from_git git =
     (case git of
        Completed returncode stdout \<Rightarrow> if returncode = 0 then strip stdout else ''0.3.45''
      | TimeoutExpired \<Rightarrow> ''0.3.45''
      | Raised e \<Rightarrow> ''0.3.45'')"

text \<open>The value of the variable \<open>version\<close> before it is trimmed.\<close>

definition version_source :: "environ \<Rightarrow> run_outcome \<Rightarrow> string option" where
  "version_source env git =
     (if \<not> is_readthedocs env then Some (get_project_version_from_git git)
      else
        (let version = (if \<not> truthy (VERSION env) then READTHEDOCS_VERSION env
                        else VERSION env)
         in if truthy version \<and> (version = Some ''latest'' \<or> version = Some ''stable'')
            then Some (get_project_version_from_git git)
            else version))"

definition get_project_version :: "environ \<Rightarrow> run_outcome \<Rightarrow> string" where
  "get_project_version env git =
     (case version_source env git of
        None \<Rightarrow> ''0.3.45''
      | Some version \<Rightarrow>
          if version \<noteq> [] \<and> strip version \<noteq> [] then
            (if startswith (strip version) ''v'' then drop 1 (strip version)
             else strip version)
          else ''0.3.45'')"

section \<open>The external-doc fetcher: \<open>get_go_doc_for_package\<close>\<close>

text \<open>The returned text and the lines printed, given how the \<open>try\<close> block around
  \<open>go doc -all\<close> ends.\<close>

definition get_go_doc_for_package :: "string \<Rightarrow> run_outcome \<Rightarrow> string \<times> log_line list" where
  "get_go_doc_for_package module_name go_doc =
     (case go_doc of
        Completed returncode stdout \<Rightarrow>
          if returncode = 0 \<and> strip stdout \<noteq> [] then (clean_go_doc_output stdout, [])
          else ([], [Warn (''No package documentation found for '' @ module_name)])
      | TimeoutExpired \<Rightarrow>
          ([], [Warn (''Timeout getting documentation for '' @ module_name)])
      | Raised e \<Rightarrow>
          ([], [Warn (''Error getting package documentation for '' @ module_name @ '': '' @ e)]))"

text \<open>What \<open>create_module_documentation\<close> meets for one module: whether the module
  directory exists, whether it holds a Go file that is not a test file, how \<open>go doc\<close>
  ends, and whether the module page can be written (\<open>open\<close> raises otherwise, and
  nothing catches that exception).\<close>

record module_world =
  module_exists :: bool
  has_go_files :: bool
  go_doc :: run_outcome
  file_writable :: bool

text \<open>\<open>create_module_documentation\<close>: the exception that leaves the method, if any, the
  file written, if any, and the lines printed.\<close>

definition create_module_documentation ::
  "string \<Rightarrow> module_world \<Rightarrow>
     py_exception option \<times> (string \<times> string) option \<times> log_line list" where
  "create_module_documentation module_name w =
     (if \<not> module_exists w then
        (None, None, [Warn (''Module '' @ module_name @ '' not found'')])
      else if \<not> has_go_files w then
        (None, None, [Warn (''No Go files found in '' @ module_name)])
      else
        (let (package_doc, printed) = get_go_doc_for_package module_name (go_doc w);
             module_content = ''# '' @ title module_name @ [nl, nl] @
               (if package_doc \<noteq> [] then package_doc @ [nl, nl] else [])
         in if file_writable w then
              (None, Some (module_name @ ''.md'', module_content),
               printed @ [Done (''Documentation created for module '' @ module_name @
                                '' using go doc'')])
            else (Some OSError, None, printed)))"

text \<open>\<open>create_modules_documentation\<close>: the loop over the module names. An exception
  that leaves \<open>create_module_documentation\<close> ends the loop; the result is what each
  visited module gave (file and printed lines) and the exception that ended the loop, if
  any.\<close>

fun create_modules_documentation ::
  "(string \<Rightarrow> module_world) \<Rightarrow> string list \<Rightarrow>
     ((string \<times> string) option \<times> log_line list) list \<times> py_exception option" where
  "create_modules_documentation world [] = ([], None)"
| "create_modules_documentation world (module # go_modules) =
     (case create_module_documentation module (world module) of
        (Some e, done) \<Rightarrow> ([done], Some e)
      | (None, done) \<Rightarrow>
          (case create_modules_documentation world go_modules of
             (rest, e) \<Rightarrow> (done # rest, e)))"

text \<open>The failures of the external command: it raised, it timed out, or it returned a
  non-zero status.\<close>

fun go_doc_failed :: "run_outcome \<Rightarrow> bool" where
  "go_doc_failed (Completed returncode stdout) = (returncode \<noteq> 0)"
| "go_doc_failed TimeoutExpired = True"
| "go_doc_failed (Raised e) = True"

section \<open>The output scaffolder: \<open>clean_output_directory\<close>\<close>

text \<open>
  What is at a path of the file system: a regular file with its text, a symbolic link
  with what it points to, or a directory with its entries in the order in which they
  are listed. The flag of a node says whether removing the node itself (\<open>unlink\<close> or
  \<open>rmdir\<close>) succeeds. \<open>None\<close> is a path where nothing exists.
\<close>

datatype link_target = To_directory | To_file | Dangling

datatype node =
  File bool string
| Symlink bool link_target
| Dir bool "(string \<times> node) list"

text \<open>
  The recursion of \<open>shutil.rmtree\<close> with its default error handling: the entries are
  removed in order, a directory after its own entries, and the first removal that fails
  raises and ends everything. \<open>rm_node\<close> returns \<open>None\<close> when the node is gone and
  otherwise what is left of it; \<open>rm_entries\<close> returns the entries that are left.
\<close>

fun rm_node :: "node \<Rightarrow> node option"
  and rm_entries :: "(string \<times> node) list \<Rightarrow> (string \<times> node) list" where
  "rm_node (File removable text) =
     (if removable then None else Some (File removable text))"
| "rm_node (Symlink removable target) =
     (if removable then None else Some (Symlink removable target))"
| "rm_node (Dir removable entries) =
     (case rm_entries entries of
        [] \<Rightarrow> if removable then None else Some (Dir removable [])
      | e # es \<Rightarrow> Some (Dir removable (e # es)))"
| "rm_entries [] = []"
| "rm_entries ((name, n) # entries) =
     (case rm_node n of
        None \<Rightarrow> rm_entries entries
      | Some n' \<Rightarrow> (name, n') # entries)"

text \<open>
  \<open>output_dir.exists()\<close>, \<open>shutil.rmtree(output_dir)\<close> and
  \<open>output_dir.mkdir(exist_ok=True)\<close> on what is at the path: the last two return the
  exception raised, if any, and what is at the path afterwards. \<open>exists\<close> follows a
  symbolic link; \<open>rmtree\<close> refuses a symbolic link and a regular file;
  \<open>mkdir(exist_ok=True)\<close> accepts what is a directory, also through a link.
  \<open>parent_writable\<close> says whether a directory can be created at the path.
\<close>

fun path_exists :: "node option \<Rightarrow> bool" where
  "path_exists None = False"
| "path_exists (Some (Symlink removable Dangling)) = False"
| "path_exists (Some n) = True"

fun rmtree :: "node option \<Rightarrow> py_exception option \<times> node option" where
  "rmtree None = (Some FileNotFoundError, None)"
| "rmtree (Some (File removable text)) =
     (Some NotADirectoryError, Some (File removable text))"
| "rmtree (Some (Symlink removable target)) = (Some OSError, Some (Symlink removable target))"
| "rmtree (Some (Dir removable entries)) =
     (case rm_node (Dir removable entries) of
        None \<Rightarrow> (None, None)
      | Some n \<Rightarrow> (Some OSError, Some n))"

fun mkdir_exist_ok :: "bool \<Rightarrow> node option \<Rightarrow> py_exception option \<times> node option" where
  "mkdir_exist_ok parent_writable None =
     (if parent_writable then (None, Some (Dir True [])) else (Some OSError, None))"
| "mkdir_exist_ok parent_writable (Some (Dir removable entries)) =
     (None, Some (Dir removable entries))"
| "mkdir_exist_ok parent_writable (Some (Symlink removable To_directory)) =
     (None, Some (Symlink removable To_directory))"
| "mkdir_exist_ok parent_writable (Some n) = (Some FileExistsError, Some n)"

text \<open>The body of the \<open>try\<close> block. The attribute \<open>output_dir\<close> is set by the constructor
  only when the generator does not run on Read the Docs; reading it otherwise raises
  \<open>AttributeError\<close>.\<close>

definition clean_output_try ::
  "bool \<Rightarrow> bool \<Rightarrow> node option \<Rightarrow> py_exception option \<times> node option" where
  "clean_output_try has_output_dir parent_writable p =
     (if \<not> has_output_dir then (Some AttributeError, p)
      else
        (case (if path_exists p then rmtree p else (None, p)) of
           (Some e, p1) \<Rightarrow> (Some e, p1)
         | (None, p1) \<Rightarrow> mkdir_exist_ok parent_writable p1))"

text \<open>The lines that \<open>clean_output_directory\<close> prints: the warning with the message of
  the exception when one was caught, and the last line in any case.\<close>

fun cleaning_log :: "py_exception option \<Rightarrow> log_line list" where
  "cleaning_log None =
     [Info ''Cleaning output/ directory...'',
      Done ''Output/ directory cleaned successfully'']"
| "cleaning_log (Some e) =
     [Info ''Cleaning output/ directory...'',
      Warn_exception ''Error cleaning output/ directory: '' e,
      Done ''Output/ directory cleaned successfully'']"

text \<open>\<open>clean_output_directory\<close>: what is at the output path afterwards, and the lines
  printed. An exception raised in the \<open>try\<close> block is caught.\<close>

definition clean_output_directory ::
  "bool \<Rightarrow> bool \<Rightarrow> node option \<Rightarrow> node option \<times> log_line list" where
  "clean_output_directory has_output_dir parent_writable p =
     (case clean_output_try has_output_dir parent_writable p of
        (raised, p1) \<Rightarrow> (p1, cleaning_log raised))"

section \<open>Facts about the string primitives\<close>

lemma split_nl_not_Nil [simp]: "split_nl s \<noteq> []"
  by (cases s) (auto split: list.splits)

lemma split_nl_no_newline: "l \<in> set (split_nl s) \<Longrightarrow> nl \<notin> set l"
proof (induction s arbitrary: l)
  case Nil
  then show ?case by simp
next
  case (Cons c cs)
  obtain x xs where r: "split_nl cs = x # xs"
    by (cases "split_nl cs") auto
  from Cons r show ?case
    by (auto split: if_splits)
qed

lemma split_nl_append:
  "nl \<notin> set h \<Longrightarrow> split_nl (h @ nl # r) = h # split_nl r"
  by (induction h) auto

lemma split_nl_single: "nl \<notin> set h \<Longrightarrow> split_nl h = [h]"
  by (induction h) auto

lemma strip_trimmed_id: "trimmed s \<Longrightarrow> strip s = s"
proof -
  assume t: "trimmed s"
  then obtain c cs where s: "s = c # cs" and c: "\<not> isspace c"
    by (cases s) (auto simp: trimmed_def)
  from t have "rev s \<noteq> []" and "\<not> isspace (hd (rev s))"
    by (auto simp: trimmed_def hd_rev)
  then have "dropWhile isspace (rev s) = rev s"
    by (cases "rev s") auto
  moreover have "dropWhile isspace s = s"
    using s c by simp
  ultimately show ?thesis
    by (simp add: strip_def)
qed

lemma strip_Nil [simp]: "strip [] = []"
  by (simp add: strip_def)

lemma strip_is_trimmed: "strip s \<noteq> [] \<Longrightarrow> trimmed (strip s)"
proof -
  assume n: "strip s \<noteq> []"
  let ?a = "dropWhile isspace s"
  let ?b = "dropWhile isspace (rev ?a)"
  from n have b: "?b \<noteq> []" by (simp add: strip_def)
  have a: "?a \<noteq> []"
  proof
    assume e: "?a = []"
    have "?b = []" unfolding e by simp
    with b show False by blast
  qed
  have hb: "\<not> isspace (hd ?b)" using b by (rule hd_dropWhile)
  have ha: "\<not> isspace (hd ?a)" using a by (rule hd_dropWhile)
  have "last (strip s) = hd ?b"
    using b by (simp add: strip_def last_rev)
  moreover have "hd (strip s) = hd ?a"
  proof -
    have "rev ?a = takeWhile isspace (rev ?a) @ ?b" by simp
    then have "?a = rev ?b @ rev (takeWhile isspace (rev ?a))"
      by (metis rev_append rev_rev_ident)
    then have "hd ?a = hd (rev ?b)" using b
      by (metis hd_append2 rev_is_Nil_conv)
    then show ?thesis by (simp add: strip_def)
  qed
  ultimately show ?thesis using n ha hb by (simp add: trimmed_def)
qed

lemma strip_subset: "set (strip s) \<subseteq> set s"
proof -
  have "set (strip s) = set (dropWhile isspace (rev (dropWhile isspace s)))"
    by (simp add: strip_def)
  also have "\<dots> \<subseteq> set (rev (dropWhile isspace s))" by (rule set_dropWhileD[THEN subsetI]) 
  also have "\<dots> \<subseteq> set s" using set_dropWhileD by fastforce
  finally show ?thesis .
qed

lemma join_nl_append:
  "xs \<noteq> [] \<Longrightarrow> ys \<noteq> [] \<Longrightarrow> join_nl (xs @ ys) = join_nl xs @ nl # join_nl ys"
  by (induction xs rule: join_nl.induct) (auto simp: neq_Nil_conv)

lemma join_nl_Cons: "ys \<noteq> [] \<Longrightarrow> join_nl (x # ys) = x @ nl # join_nl ys"
  by (cases ys) auto

lemma split_join:
  "xs \<noteq> [] \<Longrightarrow> \<forall>x\<in>set xs. nl \<notin> set x \<Longrightarrow> split_nl (join_nl xs) = xs"
proof (induction xs rule: join_nl.induct)
  case 1
  then show ?case by simp
next
  case (2 x)
  then show ?case by (simp add: split_nl_single)
next
  case (3 x y ys)
  then show ?case by (simp add: split_nl_append)
qed

lemma join_split: "join_nl (split_nl s) = s"
proof (induction s)
  case Nil
  then show ?case by simp
next
  case (Cons c cs)
  obtain x xs where r: "split_nl cs = x # xs" by (cases "split_nl cs") auto
  with Cons show ?case by (cases xs) auto
qed

lemma join_nl_Nil_iff: "join_nl xs = [] \<longleftrightarrow> xs = [] \<or> xs = [[]]"
  by (induction xs rule: join_nl.induct) auto

lemma hd_join_nl: "xs \<noteq> [] \<Longrightarrow> hd xs \<noteq> [] \<Longrightarrow> hd (join_nl xs) = hd (hd xs)"
  by (induction xs rule: join_nl.induct) auto

lemma last_join_nl: "xs \<noteq> [] \<Longrightarrow> last xs \<noteq> [] \<Longrightarrow> last (join_nl xs) = last (last xs)"
  by (induction xs rule: join_nl.induct) (auto simp: join_nl_Nil_iff)

lemma trimmed_join:
  "xs \<noteq> [] \<Longrightarrow> trimmed (hd xs) \<Longrightarrow> trimmed (last xs) \<Longrightarrow> trimmed (join_nl xs)"
  by (auto simp: trimmed_def hd_join_nl last_join_nl join_nl_Nil_iff)

lemma suffix_join_nl: "suffix x (join_nl (xs @ [x]))"
  by (induction xs rule: join_nl.induct) (auto simp: suffix_Cons suffix_append)


lemma backslash_char_Nil_iff [simp]: "backslash_char q s = [] \<longleftrightarrow> s = []"
  by (cases s) (auto simp: backslash_char_def)

lemma hd_backslash_char:
  "s \<noteq> [] \<Longrightarrow> hd (backslash_char q s) = (if hd s = q then CHR 0x5C else hd s)"
  by (cases s) (auto simp: backslash_char_def)

lemma last_backslash_char: "s \<noteq> [] \<Longrightarrow> last (backslash_char q s) = last s"
  by (induction s rule: rev_induct) (auto simp: backslash_char_def)

lemma set_backslash_char: "set (backslash_char q s) \<subseteq> insert (CHR 0x5C) (set s)"
  by (auto simp: backslash_char_def split: if_splits)

lemma backslash_char_id:
  "CHR 0x5C \<notin> set (backslash_char q s) \<Longrightarrow> backslash_char q s = s"
  by (induction s) (auto simp: backslash_char_def split: if_splits)

lemma trimmed_escape_quotes: "trimmed s \<Longrightarrow> trimmed (escape_quotes s)"
  by (auto simp: trimmed_def escape_quotes_def hd_backslash_char last_backslash_char
      isspace_def)

lemma nl_escape_quotes: "nl \<notin> set s \<Longrightarrow> nl \<notin> set (escape_quotes s)"
proof -
  assume n: "nl \<notin> set s"
  have b: "nl \<noteq> CHR 0x5C" by (simp add: nl_def)
  from n b have "nl \<notin> set (backslash_char (CHR 0x27) s)"
    using set_backslash_char [of "CHR 0x27" s] by auto
  with b show ?thesis
    using set_backslash_char [of "CHR 0x22" "backslash_char (CHR 0x27) s"]
    by (auto simp: escape_quotes_def)
qed

lemma escape_quotes_eq_plain:
  assumes e: "escape_quotes s = t" and b: "CHR 0x5C \<notin> set t"
  shows "s = t"
proof -
  let ?u = "backslash_char (CHR 0x27) s"
  from e have t: "backslash_char (CHR 0x22) ?u = t"
    by (simp add: escape_quotes_def)
  with b have "CHR 0x5C \<notin> set (backslash_char (CHR 0x22) ?u)" by simp
  then have "backslash_char (CHR 0x22) ?u = ?u" by (rule backslash_char_id)
  with t have u: "?u = t" by simp
  with b have "CHR 0x5C \<notin> set ?u" by simp
  then have "?u = s" by (rule backslash_char_id)
  with u show ?thesis by simp
qed

lemma trimmed_fence: "trimmed fence"
  by (simp add: trimmed_def fence_def isspace_def)

lemma nl_fence: "nl \<notin> set fence"
  by (simp add: fence_def nl_def)

lemma nl_strip: "nl \<notin> set l \<Longrightarrow> nl \<notin> set (strip l)"
  using strip_subset by blast

lemma trimmed_comment: "trimmed (CHR ''*'' # s @ ''*'')"
  by (simp add: trimmed_def isspace_def)

lemma nl_not_star: "nl \<noteq> CHR ''*''" "CHR ''*'' \<noteq> nl"
  by (simp_all add: nl_def)

lemma is_declaration_not_divider:
  "is_declaration s \<Longrightarrow> s \<noteq> [] \<and> s \<noteq> ''CONSTANTS'' \<and> s \<noteq> ''TYPES''"
  by (auto simp: is_declaration_def startswith_def)

lemma cleaner_inv_init: "cleaner_inv cleaner_init"
  by (simp add: cleaner_inv_def cleaner_init_def)

lemma cleaner_inv_close_open_block:
  "cleaner_inv st \<Longrightarrow>
     cleaner_inv ((close_open_block st)\<lparr>in_code_block := True, code_block_content := [s]\<rparr>)
       = (nl \<notin> set s)"
  by (auto simp: cleaner_inv_def close_open_block_def trimmed_fence nl_fence hd_append)

lemma cleaner_inv_emit:
  "cleaner_inv st \<Longrightarrow> \<not> in_code_block st \<Longrightarrow> trimmed s \<Longrightarrow> nl \<notin> set s \<Longrightarrow>
     cleaner_inv (st\<lparr>cleaned_lines := cleaned_lines st @ [s]\<rparr>)"
  by (auto simp: cleaner_inv_def hd_append)

lemma cleaner_inv_continue:
  "cleaner_inv st \<Longrightarrow> in_code_block st \<Longrightarrow> nl \<notin> set s \<Longrightarrow>
     cleaner_inv (st\<lparr>code_block_content := code_block_content st @ [s]\<rparr>)"
  by (auto simp: cleaner_inv_def)

lemma cleaner_inv_flags:
  "cleaner_inv (st\<lparr>constants_removed := b\<rparr>) = cleaner_inv st"
  "cleaner_inv (st\<lparr>types_removed := b\<rparr>) = cleaner_inv st"
  by (auto simp: cleaner_inv_def)

lemma cleaner_inv_step:
  assumes "cleaner_inv st" and "nl \<notin> set line"
  shows "cleaner_inv (clean_step st line)"
proof -
  have s: "nl \<notin> set (strip line)" using assms(2) by (rule nl_strip)
  have d: "nl \<notin> set (strip (drop 2 (strip line)))"
    using s by (meson in_set_dropD nl_strip)
  show ?thesis
    using assms(1) s d
    by (simp add: clean_step_def cleaner_inv_flags cleaner_inv_close_open_block
        cleaner_inv_emit cleaner_inv_continue strip_is_trimmed trimmed_escape_quotes
        nl_escape_quotes trimmed_comment nl_not_star)
qed

lemma clean_loop_Nil [simp]: "clean_loop st [] = st"
  by (simp add: clean_loop_def)

lemma clean_loop_Cons [simp]: "clean_loop st (l # ls) = clean_loop (clean_step st l) ls"
  by (simp add: clean_loop_def)

lemma clean_loop_append: "clean_loop st (xs @ ys) = clean_loop (clean_loop st xs) ys"
  by (simp add: clean_loop_def)

lemma cleaner_inv_loop:
  "cleaner_inv st \<Longrightarrow> \<forall>l\<in>set ls. nl \<notin> set l \<Longrightarrow> cleaner_inv (clean_loop st ls)"
  by (induction ls arbitrary: st) (auto simp: cleaner_inv_step)

lemma input_lines_no_newline: "l \<in> set (input_lines doc) \<Longrightarrow> nl \<notin> set l"
  by (auto simp: input_lines_def dest: in_set_dropD split_nl_no_newline)

lemma cleaner_inv_at_end: "cleaner_inv (cleaner_at_end doc)"
  unfolding cleaner_at_end_def
  by (rule cleaner_inv_loop) (auto simp: cleaner_inv_init input_lines_no_newline)

lemma cleaner_inv_prefix:
  assumes "input_lines doc = A @ B"
  shows "cleaner_inv (clean_loop cleaner_init A)"
proof -
  have "\<forall>l\<in>set A. nl \<notin> set l"
    using assms input_lines_no_newline [of _ doc] by simp
  then show ?thesis
    using cleaner_inv_init by (rule cleaner_inv_loop [rotated])
qed

lemma close_remaining_trimmed:
  "cleaner_inv st \<Longrightarrow> close_remaining st \<noteq> [] \<Longrightarrow>
     trimmed (hd (close_remaining st)) \<and> trimmed (last (close_remaining st))"
  by (auto simp: cleaner_inv_def close_remaining_def trimmed_fence hd_append)

lemma close_remaining_no_newline:
  "cleaner_inv st \<Longrightarrow> \<forall>x\<in>set (close_remaining st). nl \<notin> set x"
  by (auto simp: cleaner_inv_def close_remaining_def nl_fence)

lemma output_join:
  "clean_go_doc_output doc = join_nl (close_remaining (cleaner_at_end doc))"
proof (cases "doc = []")
  case True
  then show ?thesis
    by (simp add: clean_go_doc_output_def cleaner_at_end_def input_lines_def
        close_remaining_def cleaner_init_def)
next
  case False
  let ?L = "close_remaining (cleaner_at_end doc)"
  show ?thesis
  proof (cases "?L = []")
    case True
    with False show ?thesis by (simp add: clean_go_doc_output_def)
  next
    case n: False
    then have "trimmed (join_nl ?L)"
      using close_remaining_trimmed [OF cleaner_inv_at_end] by (simp add: trimmed_join)
    then have "strip (join_nl ?L) = join_nl ?L" by (rule strip_trimmed_id)
    with False show ?thesis by (simp add: clean_go_doc_output_def)
  qed
qed

lemma output_lines:
  "close_remaining (cleaner_at_end doc) \<noteq> [] \<Longrightarrow>
     split_nl (clean_go_doc_output doc) = close_remaining (cleaner_at_end doc)"
  using close_remaining_no_newline [OF cleaner_inv_at_end]
  by (simp add: output_join split_join)

lemma output_lines_empty:
  "close_remaining (cleaner_at_end doc) = [] \<Longrightarrow> clean_go_doc_output doc = []"
  by (simp add: output_join)

lemma cleaned_lines_step_prefix: "\<exists>Y. cleaned_lines (clean_step st l) = cleaned_lines st @ Y"
  by (simp add: clean_step_def close_open_block_def)

lemma close_remaining_loop_prefix:
  "\<exists>Y. close_remaining (clean_loop st ls) = cleaned_lines st @ Y"
proof (induction ls arbitrary: st)
  case Nil
  then show ?case by (simp add: close_remaining_def)
next
  case (Cons l ls)
  obtain Y where "close_remaining (clean_loop (clean_step st l) ls) = cleaned_lines (clean_step st l) @ Y"
    using Cons.IH by blast
  moreover obtain Z where "cleaned_lines (clean_step st l) = cleaned_lines st @ Z"
    using cleaned_lines_step_prefix by blast
  ultimately show ?case by simp
qed

lemma open_block_step:
  assumes "in_code_block st" and "code_block_content st \<noteq> []"
  shows "(\<exists>Z. cleaned_lines (clean_step st l) = cleaned_lines st @ fence # code_block_content st @ Z) \<or>
         (in_code_block (clean_step st l) \<and> cleaned_lines (clean_step st l) = cleaned_lines st \<and>
          (\<exists>Z. code_block_content (clean_step st l) = code_block_content st @ Z))"
  using assms by (simp add: clean_step_def close_open_block_def)

lemma open_block_emitted:
  "in_code_block st \<Longrightarrow> code_block_content st \<noteq> [] \<Longrightarrow>
     \<exists>Y. close_remaining (clean_loop st ls) = cleaned_lines st @ fence # code_block_content st @ Y"
proof (induction ls arbitrary: st)
  case Nil
  then show ?case by (simp add: close_remaining_def)
next
  case (Cons l ls)
  let ?s = "clean_step st l"
  from open_block_step [OF Cons.prems, of l] show ?case
  proof
    assume "\<exists>Z. cleaned_lines ?s = cleaned_lines st @ fence # code_block_content st @ Z"
    then obtain Z where z: "cleaned_lines ?s = cleaned_lines st @ fence # code_block_content st @ Z"
      by blast
    obtain Y where "close_remaining (clean_loop ?s ls) = cleaned_lines ?s @ Y"
      using close_remaining_loop_prefix by blast
    with z show ?thesis by simp
  next
    assume a: "in_code_block ?s \<and> cleaned_lines ?s = cleaned_lines st \<and>
          (\<exists>Z. code_block_content ?s = code_block_content st @ Z)"
    then obtain Z where z: "code_block_content ?s = code_block_content st @ Z" by blast
    with Cons.prems have "code_block_content ?s \<noteq> []" by simp
    with a Cons.IH [of ?s] obtain Y where
      "close_remaining (clean_loop ?s ls) = cleaned_lines ?s @ fence # code_block_content ?s @ Y"
      by blast
    with a z show ?thesis by simp
  qed
qed

lemma clean_step_declaration:
  "is_declaration (strip l) \<Longrightarrow>
     clean_step st l = (close_open_block st)\<lparr>in_code_block := True, code_block_content := [strip l]\<rparr>"
  using is_declaration_not_divider [of "strip l"] by (simp add: clean_step_def)

lemma clean_step_in_block:
  assumes "in_code_block st" and "\<not> is_declaration (strip l)"
    and "\<not> (cleaned_lines st = [] \<and> strip l = [])"
    and "\<not> (\<not> constants_removed st \<and> strip l = ''CONSTANTS'')"
    and "\<not> (\<not> types_removed st \<and> strip l = ''TYPES'')"
  shows "clean_step st l = st\<lparr>code_block_content := code_block_content st @ [strip l]\<rparr>"
proof -
  have "clean_step st l =
      (if strip l \<noteq> [] then st\<lparr>code_block_content := code_block_content st @ [strip l]\<rparr>
       else st\<lparr>code_block_content := code_block_content st @ [[]]\<rparr>)"
    unfolding clean_step_def using assms by (simp only: if_False if_True)
  then show ?thesis by simp
qed

lemma block_lines_Nil [simp]: "block_lines st [] = []"
  by (simp add: block_lines_def)

lemma clean_step_non_declaration_cases:
  assumes "in_code_block st" and "\<not> is_declaration (strip l)"
  shows "in_code_block (clean_step st l) \<and>
         cleaned_lines (clean_step st l) = cleaned_lines st \<and>
         code_block_content st @ block_lines st (l # M) =
           code_block_content (clean_step st l) @ block_lines (clean_step st l) M"
proof (cases "cleaned_lines st = [] \<and> strip l = []")
  case True
  then have "clean_step st l = st" by (simp add: clean_step_def)
  with True show ?thesis using assms(1) by (simp add: block_lines_def)
next
  case b: False
  show ?thesis
  proof (cases "\<not> constants_removed st \<and> strip l = ''CONSTANTS''")
    case True
    with b have "clean_step st l = st\<lparr>constants_removed := True\<rparr>"
      by (simp add: clean_step_def)
    with True show ?thesis using assms(1) by (simp add: block_lines_def)
  next
    case c: False
    show ?thesis
    proof (cases "\<not> types_removed st \<and> strip l = ''TYPES''")
      case True
      with b c have "clean_step st l = st\<lparr>types_removed := True\<rparr>"
        by (auto simp: clean_step_def)
      with True c show ?thesis using assms(1) by (auto simp: block_lines_def)
    next
      case t: False
      have "clean_step st l = st\<lparr>code_block_content := code_block_content st @ [strip l]\<rparr>"
        using assms b c t by (rule clean_step_in_block)
      with b c t show ?thesis using assms(1) by (auto simp: block_lines_def)
    qed
  qed
qed

lemma clean_loop_non_declarations:
  "in_code_block st \<Longrightarrow> \<forall>m\<in>set M. \<not> is_declaration (strip m) \<Longrightarrow>
     in_code_block (clean_loop st M) \<and>
     cleaned_lines (clean_loop st M) = cleaned_lines st \<and>
     code_block_content (clean_loop st M) = code_block_content st @ block_lines st M"
proof (induction M arbitrary: st)
  case Nil
  then show ?case by simp
next
  case (Cons l M)
  then have n: "\<not> is_declaration (strip l)" by simp
  note s = clean_step_non_declaration_cases [OF Cons.prems(1) n, of M]
  from s have o: "in_code_block (clean_step st l)" by blast
  from Cons.prems have r: "\<forall>m\<in>set M. \<not> is_declaration (strip m)" by simp
  from Cons.IH [OF o r] s show ?case by simp
qed

lemma declaration_closes_block:
  assumes "in_code_block st" and "code_block_content st \<noteq> []"
    and "is_declaration (strip d)"
  shows "\<exists>Z. close_remaining (clean_loop st (d # B)) =
           cleaned_lines st @ fence # code_block_content st @ fence # Z"
proof -
  let ?s = "clean_step st d"
  have "cleaned_lines ?s = cleaned_lines st @ fence # code_block_content st @ [fence]"
    using assms by (simp add: clean_step_declaration close_open_block_def)
  moreover obtain Y where "close_remaining (clean_loop ?s B) = cleaned_lines ?s @ Y"
    using close_remaining_loop_prefix by blast
  ultimately show ?thesis by simp
qed

lemma not_declaration_dividers:
  "\<not> is_declaration ''CONSTANTS''" "\<not> is_declaration ''TYPES''"
  by (simp_all add: is_declaration_def startswith_def)

lemma clean_step_flagged:
  assumes c: "\<not> (\<not> constants_removed st \<and> strip l = ''CONSTANTS'')"
    and t: "\<not> (\<not> types_removed st \<and> strip l = ''TYPES'')"
  shows "clean_step (st\<lparr>constants_removed := True, types_removed := True\<rparr>) l =
           (clean_step st l)\<lparr>constants_removed := True, types_removed := True\<rparr> \<and>
         constants_removed (clean_step st l) = constants_removed st \<and>
         types_removed (clean_step st l) = types_removed st"
proof -
  have n: "\<not> (\<not> constants_removed st \<and> strip l = ''CONSTANTS'')"
    "\<not> (\<not> types_removed st \<and> strip l = ''TYPES'')"
    using c t by blast+
  have 1: "clean_step st l =
     (if cleaned_lines st = [] \<and> strip l = [] then st
      else if is_declaration (strip l) then
        (close_open_block st)\<lparr>in_code_block := True, code_block_content := [strip l]\<rparr>
      else if in_code_block st then
        (if strip l \<noteq> [] then
           st\<lparr>code_block_content := code_block_content st @ [strip l]\<rparr>
         else st\<lparr>code_block_content := code_block_content st @ [[]]\<rparr>)
      else if startswith (strip l) ''//'' then
        (if strip (drop 2 (strip l)) \<noteq> [] then
           st\<lparr>cleaned_lines := cleaned_lines st @
                 [''*'' @ escape_quotes (strip (drop 2 (strip l))) @ ''*'']\<rparr>
         else st)
      else if strip l \<noteq> [] then
        st\<lparr>cleaned_lines := cleaned_lines st @ [escape_quotes (strip l)]\<rparr>
      else st)"
    unfolding clean_step_def using n by (simp only: if_False)
  show ?thesis
    unfolding 1 by (simp add: clean_step_def close_open_block_def)
qed

lemma clean_loop_drop_first_dividers:
  "close_remaining (clean_loop st ls) =
     close_remaining (clean_loop (st\<lparr>constants_removed := True, types_removed := True\<rparr>)
       (drop_first_dividers (constants_removed st) (types_removed st) ls))"
proof (induction ls arbitrary: st)
  case Nil
  then show ?case by (simp add: close_remaining_def)
next
  case (Cons l ls)
  show ?case
  proof (cases "\<not> constants_removed st \<and> strip l = ''CONSTANTS''")
    case True
    then have "clean_step st l = st\<lparr>constants_removed := True\<rparr>"
      by (simp add: clean_step_def)
    with True show ?thesis
      using Cons.IH [of "st\<lparr>constants_removed := True\<rparr>"] by simp
  next
    case c: False
    show ?thesis
    proof (cases "\<not> types_removed st \<and> strip l = ''TYPES''")
      case True
      with c have "clean_step st l = st\<lparr>types_removed := True\<rparr>"
        by (auto simp: clean_step_def)
      with True c show ?thesis
        using Cons.IH [of "st\<lparr>types_removed := True\<rparr>"] by auto
    next
      case t: False
      from c t show ?thesis
        using Cons.IH [of "clean_step st l"] clean_step_flagged [OF c t]
        by auto
    qed
  qed
qed

lemma escape_quotes_divider:
  assumes "x = ''CONSTANTS'' \<or> x = ''TYPES''"
  shows "(escape_quotes s = x) = (s = x)"
proof
  assume e: "escape_quotes s = x"
  from assms have "CHR 0x5C \<notin> set x" by auto
  with e show "s = x" by (rule escape_quotes_eq_plain)
next
  assume "s = x"
  with assms show "escape_quotes s = x"
    by (auto simp: escape_quotes_def backslash_char_def)
qed

lemma count_step_done:
  assumes cr: "constants_removed st" and tr: "types_removed st"
    and x1: "x \<noteq> []" and x2: "fence \<noteq> x" and x3: "\<not> is_declaration x"
    and x4: "\<not> startswith x ''//''" and x5: "\<And>s. CHR ''*'' # s \<noteq> x"
    and x6: "\<And>s. (escape_quotes s = x) = (s = x)"
  shows "count_list (close_remaining (clean_step st l)) x =
           count_list (close_remaining st) x + (if strip l = x then 1 else 0)"
  using cr tr x1 x2 x3 x4
  by (simp add: clean_step_def close_remaining_def close_open_block_def x5 x6) blast

lemma flags_step_done:
  "constants_removed st \<Longrightarrow> types_removed st \<Longrightarrow>
     constants_removed (clean_step st l) \<and> types_removed (clean_step st l)"
  by (simp add: clean_step_def close_open_block_def)

lemma count_loop_done:
  assumes x1: "x \<noteq> []" and x2: "fence \<noteq> x" and x3: "\<not> is_declaration x"
    and x4: "\<not> startswith x ''//''" and x5: "\<And>s. CHR ''*'' # s \<noteq> x"
    and x6: "\<And>s. (escape_quotes s = x) = (s = x)"
  shows "constants_removed st \<Longrightarrow> types_removed st \<Longrightarrow>
     count_list (close_remaining (clean_loop st ls)) x =
       count_list (close_remaining st) x + length (filter (\<lambda>l. strip l = x) ls)"
proof (induction ls arbitrary: st)
  case Nil
  then show ?case by simp
next
  case (Cons l ls)
  have f: "constants_removed (clean_step st l)" "types_removed (clean_step st l)"
    using flags_step_done [OF Cons.prems] by simp_all
  have "count_list (close_remaining (clean_step st l)) x =
      count_list (close_remaining st) x + (if strip l = x then 1 else 0)"
    using Cons.prems x1 x2 x3 x4 x5 x6 by (rule count_step_done)
  with Cons.IH [OF f] show ?case by simp
qed

lemma count_loop_constants:
  "constants_removed st \<Longrightarrow> types_removed st \<Longrightarrow>
     count_list (close_remaining (clean_loop st ls)) ''CONSTANTS'' =
       count_list (close_remaining st) ''CONSTANTS'' +
       length (filter (\<lambda>l. strip l = ''CONSTANTS'') ls)"
  by (rule count_loop_done)
    (simp_all add: fence_def is_declaration_def startswith_def escape_quotes_divider)

lemma count_loop_types:
  "constants_removed st \<Longrightarrow> types_removed st \<Longrightarrow>
     count_list (close_remaining (clean_loop st ls)) ''TYPES'' =
       count_list (close_remaining st) ''TYPES'' +
       length (filter (\<lambda>l. strip l = ''TYPES'') ls)"
  by (rule count_loop_done)
    (simp_all add: fence_def is_declaration_def startswith_def escape_quotes_divider)

lemma count_drop_constants:
  "length (filter (\<lambda>l. strip l = ''CONSTANTS'') (drop_first_dividers c t ls)) =
     (if c then length (filter (\<lambda>l. strip l = ''CONSTANTS'') ls)
      else length (filter (\<lambda>l. strip l = ''CONSTANTS'') ls) - 1)"
  by (induction c t ls rule: drop_first_dividers.induct) auto

lemma count_drop_types:
  "length (filter (\<lambda>l. strip l = ''TYPES'') (drop_first_dividers c t ls)) =
     (if t then length (filter (\<lambda>l. strip l = ''TYPES'') ls)
      else length (filter (\<lambda>l. strip l = ''TYPES'') ls) - 1)"
  by (induction c t ls rule: drop_first_dividers.induct) auto

lemma count_output_lines:
  "x \<noteq> [] \<Longrightarrow> count_list (split_nl (clean_go_doc_output doc)) x =
     count_list (close_remaining (cleaner_at_end doc)) x"
  by (cases "close_remaining (cleaner_at_end doc) = []")
    (simp_all add: output_lines output_lines_empty)

section \<open>Facts about the sectionizer\<close>

lemma since_last_title_snoc:
  "since_last_title (P @ [l]) =
     (if startswith l ''# '' then [l] else since_last_title P @ [l])"
  by (induction P) auto

lemma since_last_title_no_title:
  "\<forall>l\<in>set ls. \<not> startswith l ''# '' \<Longrightarrow> since_last_title ls = ls"
  by (cases ls) auto

lemma level2_not_title: "startswith l ''## '' \<Longrightarrow> \<not> startswith l ''# ''"
  by (auto simp: startswith_def prefix_def)

lemma sectionizer_no_level2:
  assumes "\<forall>l\<in>set P. \<not> startswith l ''## ''"
  shows "foldl readme_step sectionizer_init P =
     \<lparr>sections = (if P = [] then [] else [(''introduction'', since_last_title P)]),
      current_section = ''introduction''\<rparr>"
  using assms
proof (induction P rule: rev_induct)
  case Nil
  then show ?case by (simp add: sectionizer_init_def)
next
  case (snoc l P)
  let ?st = "\<lparr>sections = (if P = [] then [] else [(''introduction'', since_last_title P)]),
      current_section = ''introduction''\<rparr>"
  from snoc have ih: "foldl readme_step sectionizer_init P = ?st"
    and n: "\<not> startswith l ''## ''"
    by simp_all
  have "foldl readme_step sectionizer_init (P @ [l]) =
      readme_step (foldl readme_step sectionizer_init P) l"
    by simp
  also have "\<dots> = readme_step ?st l"
    by (simp only: ih)
  also have "\<dots> = \<lparr>sections = [(''introduction'', since_last_title (P @ [l]))],
      current_section = ''introduction''\<rparr>"
    using n by (simp add: readme_step_def since_last_title_snoc)
  finally show ?case by simp
qed

section \<open>Trimming a string that starts with a visible character\<close>

lemma strip_nonspace_Cons:
  "\<not> isspace c \<Longrightarrow> strip (c # cs) = c # rev (dropWhile isspace (rev cs))"
  by (simp add: strip_def dropWhile_append3)

section \<open>Evaluating the cleaner on concrete inputs\<close>

lemmas eval_defs = clean_go_doc_output_def cleaner_at_end_def input_lines_def clean_loop_def
  close_remaining_def clean_step_def cleaner_init_def strip_def isspace_def
  is_declaration_def startswith_def close_open_block_def escape_quotes_def backslash_char_def

section \<open>Facts about the module loop\<close>

lemma get_go_doc_failed:
  "go_doc_failed outcome \<Longrightarrow>
     fst (get_go_doc_for_package module_name outcome) = [] \<and>
     (\<exists>w. snd (get_go_doc_for_package module_name outcome) = [Warn w])"
  by (cases outcome) (simp_all add: get_go_doc_for_package_def)

lemma create_module_documentation_no_exception:
  "file_writable w \<Longrightarrow> fst (create_module_documentation module_name w) = None"
  by (simp add: create_module_documentation_def split: prod.splits)

lemma create_modules_documentation_all:
  "\<forall>m\<in>set ms. file_writable (world m) \<Longrightarrow>
     create_modules_documentation world ms =
       (map (\<lambda>m. snd (create_module_documentation m (world m))) ms, None)"
proof (induction ms)
  case Nil
  then show ?case by simp
next
  case (Cons m ms)
  then have "fst (create_module_documentation m (world m)) = None"
    by (simp add: create_module_documentation_no_exception)
  then obtain d where "create_module_documentation m (world m) = (None, d)"
    by (cases "create_module_documentation m (world m)") auto
  with Cons show ?case by simp
qed

section \<open>Facts about the removal of a tree\<close>

text \<open>What a failed removal leaves cannot be removed by a second attempt either.\<close>

lemma rm_node_left:
  "(\<forall>n'. rm_node n = Some n' \<longrightarrow> rm_node n' = Some n')"
  "rm_entries (rm_entries es) = rm_entries es"
proof (induction n and es rule: rm_node_rm_entries.induct)
  case (1 r t)
  then show ?case by simp
next
  case (2 r k)
  then show ?case by simp
next
  case (3 r es)
  then show ?case by (auto split: list.splits if_splits)
next
  case 4
  then show ?case by simp
next
  case (5 a n es)
  then show ?case by (auto split: option.splits)
qed

lemma rm_node_Dir_left:
  "rm_node (Dir r es) = Some n \<Longrightarrow> \<exists>es'. n = Dir r es'"
  by (auto split: list.splits if_splits)

lemmas clean_output_defs = clean_output_directory_def clean_output_try_def

section \<open>A block that is open at the end of the input is closed\<close>

text \<open>
  Claim C8. When the loop ends with a code block still open (the last processed line
  opened or continued one), the block is emitted and closed: the output consists of the
  lines emitted so far, the opening fence, the content of the open block, which is not
  empty, and the closing fence, so the output ends with the closing fence. This holds
  in particular when the last line of the input is a declaration line that no line
  follows: its block holds the declaration alone and is closed.
\<close>

theorem open_block_closed_at_end:
  "(in_code_block (cleaner_at_end doc) \<longrightarrow>
      code_block_content (cleaner_at_end doc) \<noteq> [] \<and>
      split_nl (clean_go_doc_output doc) =
        cleaned_lines (cleaner_at_end doc) @ fence # code_block_content (cleaner_at_end doc) @
        [fence] \<and>
      endswith (clean_go_doc_output doc) fence \<and>
      last (split_nl (clean_go_doc_output doc)) = fence) \<and>
   (input_lines doc = P @ [d] \<and> is_declaration (strip d) \<longrightarrow>
      in_code_block (cleaner_at_end doc) \<and>
      code_block_content (cleaner_at_end doc) = [strip d] \<and>
      split_nl (clean_go_doc_output doc) =
        cleaned_lines (cleaner_at_end doc) @ [fence, strip d, fence])"
proof -
  let ?st = "cleaner_at_end doc"
  have open_case: "code_block_content ?st \<noteq> [] \<and>
      split_nl (clean_go_doc_output doc) =
        cleaned_lines ?st @ fence # code_block_content ?st @ [fence] \<and>
      endswith (clean_go_doc_output doc) fence \<and>
      last (split_nl (clean_go_doc_output doc)) = fence"
    if o: "in_code_block ?st"
  proof -
    have c: "code_block_content ?st \<noteq> []"
      using o cleaner_inv_at_end [of doc] by (simp add: cleaner_inv_def)
    with o have L: "close_remaining ?st =
        (cleaned_lines ?st @ fence # code_block_content ?st) @ [fence]"
      by (simp add: close_remaining_def)
    then have "suffix fence (join_nl (close_remaining ?st))"
      by (simp only: suffix_join_nl)
    moreover from L have "split_nl (clean_go_doc_output doc) = close_remaining ?st"
      by (simp add: output_lines)
    ultimately show ?thesis
      using L c by (simp add: endswith_def output_join)
  qed
  have decl_case: "in_code_block ?st \<and> code_block_content ?st = [strip d]"
    if "input_lines doc = P @ [d]" and "is_declaration (strip d)"
    using that by (simp add: cleaner_at_end_def clean_loop_append clean_step_declaration)
  from open_case decl_case show ?thesis by auto
qed

theorem open_block_closed_at_end_witness:
  "input_lines (''package p'' @ nl # ''plain'' @ nl # ''func A()'') = [''plain''] @ [''func A()''] \<and>
   is_declaration (strip ''func A()'') \<and>
   in_code_block (cleaner_at_end (''package p'' @ nl # ''plain'' @ nl # ''func A()'')) \<and>
   split_nl (clean_go_doc_output (''package p'' @ nl # ''plain'' @ nl # ''func A()'')) =
     [''plain'', fence, ''func A()'', fence] \<and>
   endswith (clean_go_doc_output (''package p'' @ nl # ''plain'' @ nl # ''func A()'')) fence"
proof -
  define doc where "doc = ''package p'' @ nl # ''plain'' @ nl # ''func A()''"
  have h1: "input_lines doc = [''plain''] @ [''func A()'']"
    by (simp add: doc_def input_lines_def nl_def)
  have s: "strip ''func A()'' = ''func A()''"
    by (simp add: strip_def isspace_def)
  have h2: "is_declaration (strip ''func A()'')"
    unfolding s by (simp add: is_declaration_def startswith_def)
  have c: "cleaned_lines (cleaner_at_end doc) = [''plain'']"
    by (simp add: doc_def eval_defs nl_def)
  have o: "in_code_block (cleaner_at_end doc)"
    and l: "split_nl (clean_go_doc_output doc) =
        cleaned_lines (cleaner_at_end doc) @ [fence, strip ''func A()'', fence]"
    using open_block_closed_at_end [of doc "[''plain'']" "''func A()''"] h1 h2 by blast+
  have e: "endswith (clean_go_doc_output doc) fence"
    using open_block_closed_at_end [of doc "[''plain'']" "''func A()''"] o by blast
  have l': "split_nl (clean_go_doc_output doc) = [''plain'', fence, ''func A()'', fence]"
    using l unfolding c s by simp
  from h1 h2 o l' e show ?thesis
    unfolding doc_def by blast
qed

section \<open>Consecutive declaration lines\<close>

text \<open>
  Claim C1, as the code has it. A declaration line is a line whose stripped text starts
  with one of the six keywords followed by a space. Each declaration line closes the
  block that is open and starts a new one, so two consecutive declaration lines (after
  the discarded first line) are emitted in two separate fenced blocks: the first one
  alone between its own fences, directly followed by the opening fence of the second.
\<close>

theorem consecutive_declarations_separate_blocks:
  assumes "input_lines doc = A @ [d1, d2] @ B"
    and "is_declaration (strip d1)" and "is_declaration (strip d2)"
  shows "\<exists>X Y. split_nl (clean_go_doc_output doc) =
           X @ [fence, strip d1, fence, fence, strip d2] @ Y"
proof -
  let ?sA = "clean_loop cleaner_init A"
  let ?s1 = "clean_step ?sA d1"
  let ?s2 = "clean_step ?s1 d2"
  have s1: "in_code_block ?s1 \<and> code_block_content ?s1 = [strip d1]"
    using assms(2) by (simp add: clean_step_declaration)
  then have s2: "in_code_block ?s2 \<and> code_block_content ?s2 = [strip d2] \<and>
      cleaned_lines ?s2 = cleaned_lines ?s1 @ [fence, strip d1, fence]"
    using assms(3) by (simp add: clean_step_declaration [of d2] close_open_block_def)
  have "cleaner_at_end doc = clean_loop ?s2 B"
    by (simp add: cleaner_at_end_def assms(1) clean_loop_append)
  moreover obtain Y where
    "close_remaining (clean_loop ?s2 B) = cleaned_lines ?s2 @ fence # code_block_content ?s2 @ Y"
    using open_block_emitted [of ?s2 B] s2 by auto
  ultimately have L: "close_remaining (cleaner_at_end doc) =
      cleaned_lines ?s1 @ [fence, strip d1, fence, fence, strip d2] @ Y"
    using s2 by simp
  then have "split_nl (clean_go_doc_output doc) = close_remaining (cleaner_at_end doc)"
    by (simp add: output_lines)
  with L have "split_nl (clean_go_doc_output doc) =
      cleaned_lines ?s1 @ [fence, strip d1, fence, fence, strip d2] @ Y"
    by simp
  then show ?thesis by blast
qed

theorem consecutive_declarations_separate_blocks_witness:
  "input_lines (''package p'' @ nl # ''func A()'' @ nl # ''  type T int'') =
     [] @ [''func A()'', ''  type T int''] @ [] \<and>
   is_declaration (strip ''func A()'') \<and> is_declaration (strip ''  type T int'') \<and>
   (\<exists>X Y. split_nl (clean_go_doc_output (''package p'' @ nl # ''func A()'' @ nl # ''  type T int'')) =
      X @ [fence, strip ''func A()'', fence, fence, strip ''  type T int''] @ Y)"
proof -
  have h1: "input_lines (''package p'' @ nl # ''func A()'' @ nl # ''  type T int'') =
     [] @ [''func A()'', ''  type T int''] @ []"
    by (simp add: input_lines_def nl_def)
  have h2: "is_declaration (strip ''func A()'')"
    by (simp add: is_declaration_def startswith_def strip_def isspace_def)
  have h3: "is_declaration (strip ''  type T int'')"
    by (simp add: is_declaration_def startswith_def strip_def isspace_def)
  from consecutive_declarations_separate_blocks [OF h1 h2 h3] h1 h2 h3
  show ?thesis by blast
qed

text \<open>The claim as the specification states it fails: two consecutive declaration
  lines come out in two blocks, with a closing and an opening fence between them.\<close>

theorem consecutive_declarations_counterexample:
  "input_lines (''package p'' @ nl # ''func A()'' @ nl # ''func B()'') = [''func A()'', ''func B()''] \<and>
   is_declaration ''func A()'' \<and> is_declaration ''func B()'' \<and>
   split_nl (clean_go_doc_output (''package p'' @ nl # ''func A()'' @ nl # ''func B()'')) =
     [fence, ''func A()'', fence, fence, ''func B()'', fence]"
  by (simp add: eval_defs nl_def fence_def)

section \<open>Non-declaration lines while a block is open\<close>

text \<open>
  Claim C2, as the code has it. No non-declaration line closes an open code block. Over
  any run of non-declaration lines that arrives while a block is open, the block stays
  open and nothing is emitted; every line of the run is appended, stripped, to the
  content of the block, but the lines that the loop skips (a first \<open>CONSTANTS\<close> or
  \<open>TYPES\<close> divider and, while nothing has been emitted, blank lines). The block is
  closed only by the end of the input or by the next declaration line: in the output
  the opening fence, the lines the block held before, the lines taken from the run and
  the closing fence stand together, and the closing fence is the last line of the
  output when the input ends with the run.
\<close>

theorem non_declaration_continues_block:
  assumes "input_lines doc = P @ M @ B"
    and "in_code_block (clean_loop cleaner_init P)"
    and "\<forall>m\<in>set M. \<not> is_declaration (strip m)"
  shows "in_code_block (clean_loop cleaner_init (P @ M)) \<and>
         cleaned_lines (clean_loop cleaner_init (P @ M)) =
           cleaned_lines (clean_loop cleaner_init P) \<and>
         code_block_content (clean_loop cleaner_init (P @ M)) =
           code_block_content (clean_loop cleaner_init P) @
           block_lines (clean_loop cleaner_init P) M \<and>
         (B = [] \<longrightarrow>
            split_nl (clean_go_doc_output doc) =
              cleaned_lines (clean_loop cleaner_init P) @
              fence # code_block_content (clean_loop cleaner_init P) @
              block_lines (clean_loop cleaner_init P) M @ [fence]) \<and>
         (B \<noteq> [] \<and> is_declaration (strip (hd B)) \<longrightarrow>
            (\<exists>Z. split_nl (clean_go_doc_output doc) =
               cleaned_lines (clean_loop cleaner_init P) @
               fence # code_block_content (clean_loop cleaner_init P) @
               block_lines (clean_loop cleaner_init P) M @ fence # Z))"
proof -
  let ?s1 = "clean_loop cleaner_init P"
  let ?s2 = "clean_loop cleaner_init (P @ M)"
  have e: "?s2 = clean_loop ?s1 M" by (simp add: clean_loop_append)
  have m: "in_code_block ?s2 \<and> cleaned_lines ?s2 = cleaned_lines ?s1 \<and>
      code_block_content ?s2 = code_block_content ?s1 @ block_lines ?s1 M"
    unfolding e using assms(2,3) by (rule clean_loop_non_declarations)
  have "cleaner_inv ?s1"
    using assms(1) by (rule cleaner_inv_prefix)
  with assms(2) have "code_block_content ?s1 \<noteq> []"
    by (simp add: cleaner_inv_def)
  with m have c: "code_block_content ?s2 \<noteq> []" by simp
  have a: "cleaner_at_end doc = clean_loop ?s2 B"
    by (simp add: cleaner_at_end_def assms(1) clean_loop_append)
  have n: "close_remaining (cleaner_at_end doc) \<noteq> [] \<Longrightarrow>
      split_nl (clean_go_doc_output doc) = close_remaining (cleaner_at_end doc)"
    by (rule output_lines)
  have end_case: "split_nl (clean_go_doc_output doc) =
      cleaned_lines ?s1 @ fence # code_block_content ?s1 @ block_lines ?s1 M @ [fence]"
    if "B = []"
  proof -
    from that a have "close_remaining (cleaner_at_end doc) = close_remaining ?s2" by simp
    also have "\<dots> = cleaned_lines ?s1 @ fence # code_block_content ?s1 @
        block_lines ?s1 M @ [fence]"
      using m c by (simp add: close_remaining_def)
    finally show ?thesis using n by simp
  qed
  have decl_case: "\<exists>Z. split_nl (clean_go_doc_output doc) =
      cleaned_lines ?s1 @ fence # code_block_content ?s1 @ block_lines ?s1 M @ fence # Z"
    if "B \<noteq> []" and "is_declaration (strip (hd B))"
  proof -
    from that obtain d B' where B: "B = d # B'" and d: "is_declaration (strip d)"
      by (cases B) auto
    from m c d obtain Z where "close_remaining (clean_loop ?s2 (d # B')) =
        cleaned_lines ?s2 @ fence # code_block_content ?s2 @ fence # Z"
      using declaration_closes_block [of ?s2 d B'] by blast
    with a B m have L: "close_remaining (cleaner_at_end doc) =
        cleaned_lines ?s1 @ fence # code_block_content ?s1 @ block_lines ?s1 M @ fence # Z"
      by simp
    with n have "split_nl (clean_go_doc_output doc) =
        cleaned_lines ?s1 @ fence # code_block_content ?s1 @ block_lines ?s1 M @ fence # Z"
      by simp
    then show ?thesis by blast
  qed
  from m end_case decl_case show ?thesis by blast
qed

theorem non_declaration_continues_block_witness:
  "input_lines (''package p'' @ nl # ''const ('' @ nl # [] @ nl # ''  A = 1'' @ nl #
      ''TYPES'' @ nl # '')'' @ nl # ''type T int'') =
     [''const (''] @ [[], ''  A = 1'', ''TYPES'', '')''] @ [''type T int''] \<and>
   in_code_block (clean_loop cleaner_init [''const ('']) \<and>
   \<not> is_declaration (strip []) \<and> \<not> is_declaration (strip ''  A = 1'') \<and>
   \<not> is_declaration (strip ''TYPES'') \<and> \<not> is_declaration (strip '')'') \<and>
   is_declaration (strip ''type T int'') \<and>
   in_code_block (clean_loop cleaner_init
     ([''const (''] @ [[], ''  A = 1'', ''TYPES'', '')''])) \<and>
   code_block_content (clean_loop cleaner_init
     ([''const (''] @ [[], ''  A = 1'', ''TYPES'', '')''])) = [''const ('', ''A = 1'', '')''] \<and>
   (\<exists>Z. split_nl (clean_go_doc_output
        (''package p'' @ nl # ''const ('' @ nl # [] @ nl # ''  A = 1'' @ nl #
         ''TYPES'' @ nl # '')'' @ nl # ''type T int'')) =
      fence # [''const ('', ''A = 1'', '')''] @ fence # Z)"
proof -
  define doc where "doc = ''package p'' @ nl # ''const ('' @ nl # [] @ nl # ''  A = 1'' @ nl #
      ''TYPES'' @ nl # '')'' @ nl # ''type T int''"
  define P where "P = [''const ('']"
  define M where "M = [[], ''  A = 1'', ''TYPES'', '')'']"
  define B where "B = [''type T int'']"
  have h1: "input_lines doc = P @ M @ B"
    by (simp add: doc_def P_def M_def B_def input_lines_def nl_def)
  have st: "clean_loop cleaner_init P =
      cleaner_init\<lparr>in_code_block := True, code_block_content := [''const ('']\<rparr>"
    unfolding P_def by (simp add: eval_defs)
  have h2: "in_code_block (clean_loop cleaner_init P)"
    unfolding st by simp
  have s: "strip [] = []" "strip ''  A = 1'' = ''A = 1''" "strip ''TYPES'' = ''TYPES''"
    "strip '')'' = '')''" "strip ''type T int'' = ''type T int''"
    by (simp_all add: strip_def isspace_def)
  have n: "\<not> is_declaration []" "\<not> is_declaration ''A = 1''" "\<not> is_declaration ''TYPES''"
    "\<not> is_declaration '')''" "is_declaration ''type T int''"
    by (simp_all add: is_declaration_def startswith_def)
  have h3: "\<forall>m\<in>set M. \<not> is_declaration (strip m)"
    unfolding M_def by (simp add: s n)
  have b: "B \<noteq> [] \<and> is_declaration (strip (hd B))"
    unfolding B_def by (simp add: s n)
  have k: "block_lines (clean_loop cleaner_init P) M = [''A = 1'', '')'']"
    unfolding st M_def by (simp add: block_lines_def cleaner_init_def s)
  have c: "cleaned_lines (clean_loop cleaner_init P) = []"
    "code_block_content (clean_loop cleaner_init P) = [''const ('']"
    unfolding st by (simp_all add: cleaner_init_def)
  from non_declaration_continues_block [OF h1 h2 h3] b
  have "in_code_block (clean_loop cleaner_init (P @ M))"
    and "code_block_content (clean_loop cleaner_init (P @ M)) =
      code_block_content (clean_loop cleaner_init P) @ block_lines (clean_loop cleaner_init P) M"
    and "\<exists>Z. split_nl (clean_go_doc_output doc) =
      cleaned_lines (clean_loop cleaner_init P) @
      fence # code_block_content (clean_loop cleaner_init P) @
      block_lines (clean_loop cleaner_init P) M @ fence # Z"
    by blast+
  then have "in_code_block (clean_loop cleaner_init (P @ M))"
    and "code_block_content (clean_loop cleaner_init (P @ M)) = [''const ('', ''A = 1'', '')'']"
    and "\<exists>Z. split_nl (clean_go_doc_output doc) =
      fence # [''const ('', ''A = 1'', '')''] @ fence # Z"
    unfolding k c by simp_all
  with h1 h2 show ?thesis
    unfolding doc_def P_def M_def B_def by (simp add: s n)
qed

text \<open>The claim as the specification states it fails: the non-declaration line after
  a declaration line is emitted inside the block, and the block is still open after
  it.\<close>

theorem non_declaration_counterexample:
  "input_lines (''package p'' @ nl # ''func A() {'' @ nl # ''body text'') = [''func A() {'', ''body text''] \<and>
   is_declaration ''func A() {'' \<and> \<not> is_declaration ''body text'' \<and>
   in_code_block (clean_loop cleaner_init [''func A() {'']) \<and>
   in_code_block (clean_loop cleaner_init [''func A() {'', ''body text'']) \<and>
   split_nl (clean_go_doc_output (''package p'' @ nl # ''func A() {'' @ nl # ''body text'')) =
     [fence, ''func A() {'', ''body text'', fence]"
  by (simp add: eval_defs nl_def fence_def)

section \<open>The dividers CONSTANTS and TYPES\<close>

text \<open>
  Claim C5, as the code has it. The first line of the input is discarded before the
  divider rule applies, so the lines that count are those after the first. Of these, the
  first line that strips to \<open>CONSTANTS\<close> and the first line that strips to \<open>TYPES\<close> are
  dropped and every other line, later \<open>CONSTANTS\<close> and \<open>TYPES\<close> lines included, goes
  through the remaining rules: the output is what these rules make of the lines without
  the two first dividers. Hence the output has one line \<open>CONSTANTS\<close> less than there are
  lines stripping to \<open>CONSTANTS\<close> after the first line (with exactly two of them, one is
  removed and one retained), and likewise for \<open>TYPES\<close>.
\<close>

theorem dividers_removed_once:
  "clean_go_doc_output doc =
     join_nl (close_remaining (clean_loop dividers_done
       (drop_first_dividers False False (input_lines doc)))) \<and>
   count_list (split_nl (clean_go_doc_output doc)) ''CONSTANTS'' =
     length (filter (\<lambda>l. strip l = ''CONSTANTS'') (input_lines doc)) - 1 \<and>
   count_list (split_nl (clean_go_doc_output doc)) ''TYPES'' =
     length (filter (\<lambda>l. strip l = ''TYPES'') (input_lines doc)) - 1"
proof -
  let ?D = "drop_first_dividers False False (input_lines doc)"
  have r: "close_remaining (cleaner_at_end doc) = close_remaining (clean_loop dividers_done ?D)"
    using clean_loop_drop_first_dividers [of cleaner_init "input_lines doc"]
    by (simp add: cleaner_at_end_def dividers_done_def cleaner_init_def)
  have i: "constants_removed dividers_done" "types_removed dividers_done"
    "close_remaining dividers_done = []"
    by (simp_all add: dividers_done_def cleaner_init_def close_remaining_def)
  have "count_list (close_remaining (clean_loop dividers_done ?D)) ''CONSTANTS'' =
      length (filter (\<lambda>l. strip l = ''CONSTANTS'') ?D)"
    using i by (simp add: count_loop_constants)
  then have c: "count_list (split_nl (clean_go_doc_output doc)) ''CONSTANTS'' =
     length (filter (\<lambda>l. strip l = ''CONSTANTS'') (input_lines doc)) - 1"
    by (simp add: count_output_lines r count_drop_constants)
  have "count_list (close_remaining (clean_loop dividers_done ?D)) ''TYPES'' =
      length (filter (\<lambda>l. strip l = ''TYPES'') ?D)"
    using i by (simp add: count_loop_types)
  then have t: "count_list (split_nl (clean_go_doc_output doc)) ''TYPES'' =
     length (filter (\<lambda>l. strip l = ''TYPES'') (input_lines doc)) - 1"
    by (simp add: count_output_lines r count_drop_types)
  from r c t show ?thesis by (simp add: output_join)
qed

theorem dividers_removed_once_witness:
  "length (filter (\<lambda>l. strip l = ''CONSTANTS'')
      (input_lines (''package p'' @ nl # ''CONSTANTS'' @ nl # ''text'' @ nl # '' CONSTANTS''))) = 2 \<and>
   drop_first_dividers False False
      (input_lines (''package p'' @ nl # ''CONSTANTS'' @ nl # ''text'' @ nl # '' CONSTANTS'')) =
      [''text'', '' CONSTANTS''] \<and>
   count_list (split_nl (clean_go_doc_output
      (''package p'' @ nl # ''CONSTANTS'' @ nl # ''text'' @ nl # '' CONSTANTS''))) ''CONSTANTS'' = 1 \<and>
   clean_go_doc_output (''package p'' @ nl # ''CONSTANTS'' @ nl # ''text'' @ nl # '' CONSTANTS'') =
      ''text'' @ nl # ''CONSTANTS''"
proof -
  define doc where "doc = ''package p'' @ nl # ''CONSTANTS'' @ nl # ''text'' @ nl # '' CONSTANTS''"
  have n: "input_lines doc = [''CONSTANTS'', ''text'', '' CONSTANTS'']"
    by (simp add: doc_def input_lines_def nl_def)
  have s: "strip ''CONSTANTS'' = ''CONSTANTS''" "strip ''text'' = ''text''"
    "strip '' CONSTANTS'' = ''CONSTANTS''"
    by (simp_all add: strip_def isspace_def)
  have c: "length (filter (\<lambda>l. strip l = ''CONSTANTS'') (input_lines doc)) = 2"
    by (simp add: n s)
  have d: "drop_first_dividers False False (input_lines doc) = [''text'', '' CONSTANTS'']"
    by (simp add: n s)
  have e: "join_nl (close_remaining (clean_loop dividers_done [''text'', '' CONSTANTS''])) =
      ''text'' @ nl # ''CONSTANTS''"
    by (simp add: dividers_done_def eval_defs)
  have "clean_go_doc_output doc =
      join_nl (close_remaining (clean_loop dividers_done
        (drop_first_dividers False False (input_lines doc))))"
    and "count_list (split_nl (clean_go_doc_output doc)) ''CONSTANTS'' =
      length (filter (\<lambda>l. strip l = ''CONSTANTS'') (input_lines doc)) - 1"
    using dividers_removed_once [of doc] by blast+
  then have "clean_go_doc_output doc = ''text'' @ nl # ''CONSTANTS''"
    and "count_list (split_nl (clean_go_doc_output doc)) ''CONSTANTS'' = 1"
    unfolding d e c by simp_all
  with c d show ?thesis
    unfolding doc_def by blast
qed

text \<open>The claim as the specification states it fails: when the first line of the input is
  itself \<open>CONSTANTS\<close>, it is discarded as the first line and the second occurrence is
  dropped as the divider, so neither of the two is retained.\<close>

theorem dividers_counterexample:
  "count_list (split_nl (''CONSTANTS'' @ nl # ''CONSTANTS'')) ''CONSTANTS'' = 2 \<and>
   clean_go_doc_output (''CONSTANTS'' @ nl # ''CONSTANTS'') = [] \<and>
   count_list (split_nl (clean_go_doc_output (''CONSTANTS'' @ nl # ''CONSTANTS''))) ''CONSTANTS'' = 0"
  by (simp add: eval_defs nl_def)

section \<open>The example README\<close>

text \<open>
  Claim C3, as the code has it. For the README of the example scenario the sectionizer
  returns exactly three sections, \<open>introduction\<close> holding the title line, \<open>installation\<close>
  holding \<open>run this\<close> and \<open>usage\<close> holding \<open>do that\<close>. The page writer writes a page
  only for a section that is a key of its fixed table: \<open>introduction\<close> goes to
  \<open>introduction.md\<close> and \<open>installation\<close> to \<open>installation.md\<close>, each with the
  titleized section name in the front matter and in the heading. The table has no key
  \<open>usage\<close> (its key for \<open>usage.md\<close> is \<open>usage-examples\<close>), so no page is written for
  the third section.
\<close>

theorem readme_example_pages:
  "extract_readme_content (Some readme_example) =
     [(''introduction'', ''# Title''), (''installation'', ''run this''),
      (''usage'', ''do that'')] \<and>
   map_of section_files ''usage'' = None \<and>
   create_markdown_files (extract_readme_content (Some readme_example)) =
     [(''introduction.md'',
       ''---'' @ [nl] @ ''title: Introduction'' @ [nl] @ ''---'' @ [nl] @ [nl] @
       ''# Introduction'' @ [nl] @ [nl] @ ''# Title'' @ [nl]),
      (''installation.md'',
       ''---'' @ [nl] @ ''title: Installation'' @ [nl] @ ''---'' @ [nl] @ [nl] @
       ''# Installation'' @ [nl] @ [nl] @ ''run this'' @ [nl])]"
  by code_simp

text \<open>The claim as the specification states it fails: there are three sections, and
  two files are written.\<close>

theorem readme_example_counterexample:
  "map fst (extract_readme_content (Some readme_example)) =
     [''introduction'', ''installation'', ''usage''] \<and>
   map fst (create_markdown_files (extract_readme_content (Some readme_example))) =
     [''introduction.md'', ''installation.md'']"
  by code_simp

section \<open>A README without level-2 headings\<close>

text \<open>
  Claim C4, as the code has it. When no line of the README starts with \<open>## \<close>, the
  sectionizer returns the single section \<open>introduction\<close>. A line that starts with \<open># \<close>
  resets that section to the heading line itself, so the text of the section is the
  README from its last level-1 heading line on, joined and trimmed; it is the entire
  README, joined and trimmed, when no line starts with \<open># \<close>.
\<close>

theorem no_level2_heading_single_section:
  assumes "\<forall>l\<in>set (split_nl content). \<not> startswith l ''## ''"
  shows "extract_readme_content (Some content) =
           [(''introduction'', strip (join_nl (since_last_title (split_nl content))))] \<and>
         ((\<forall>l\<in>set (split_nl content). \<not> startswith l ''# '') \<longrightarrow>
            extract_readme_content (Some content) = [(''introduction'', strip content)])"
  using assms
  by (simp add: extract_readme_content_def sectionizer_no_level2 since_last_title_no_title
      join_split)

theorem no_level2_heading_single_section_witness:
  "filter (\<lambda>l. startswith l ''## '') (split_nl (''intro'' @ [nl] @ ''# Title'' @ [nl] @ ''body'')) = [] \<and>
   since_last_title (split_nl (''intro'' @ [nl] @ ''# Title'' @ [nl] @ ''body'')) =
     [''# Title'', ''body''] \<and>
   extract_readme_content (Some (''intro'' @ [nl] @ ''# Title'' @ [nl] @ ''body'')) =
     [(''introduction'', ''# Title'' @ [nl] @ ''body'')]"
proof -
  define content where "content = ''intro'' @ [nl] @ ''# Title'' @ [nl] @ ''body''"
  have l: "split_nl content = [''intro'', ''# Title'', ''body'']"
    unfolding content_def by code_simp
  have h: "\<forall>l\<in>set (split_nl content). \<not> startswith l ''## ''"
    unfolding l by (simp add: startswith_def)
  have f: "filter (\<lambda>l. startswith l ''## '') (split_nl content) = []"
    unfolding l by (simp add: startswith_def)
  have s: "since_last_title (split_nl content) = [''# Title'', ''body'']"
    unfolding l by (simp add: startswith_def)
  have j: "strip (join_nl [''# Title'', ''body'']) = ''# Title'' @ [nl] @ ''body''"
    by code_simp
  from no_level2_heading_single_section [OF h]
  have "extract_readme_content (Some content) = [(''introduction'', ''# Title'' @ [nl] @ ''body'')]"
    unfolding s j by blast
  with f s show ?thesis unfolding content_def by blast
qed

text \<open>The claim as the specification states it fails: text in front of a level-1
  heading line is not part of the section.\<close>

theorem no_level2_heading_counterexample:
  "filter (\<lambda>l. startswith l ''## '') (split_nl (''intro'' @ [nl] @ ''# Title'')) = [] \<and>
   strip (''intro'' @ [nl] @ ''# Title'') = ''intro'' @ [nl] @ ''# Title'' \<and>
   extract_readme_content (Some (''intro'' @ [nl] @ ''# Title'')) =
     [(''introduction'', ''# Title'')]"
  by code_simp

section \<open>The version prefix\<close>

text \<open>
  On Read the Docs (\<open>READTHEDOCS\<close> is \<open>True\<close>) the resolver does what its docstring
  says: for every value of \<open>VERSION\<close> that starts with the prefix character \<open>v\<close> the
  resolved version is the trimmed value without its leading \<open>v\<close>. Off Read the Docs
  the result is the same as with \<open>VERSION\<close> unset.
\<close>

lemma version_on_readthedocs:
  assumes "VERSION env = Some v" and "startswith v ''v''"
  shows "(is_readthedocs env \<longrightarrow> get_project_version env git = drop 1 (strip v)) \<and>
         (\<not> is_readthedocs env \<longrightarrow>
            get_project_version env git =
              get_project_version (env\<lparr>VERSION := None\<rparr>) git)"
proof -
  from assms(2) obtain w where v: "v = CHR ''v'' # w"
    by (cases v) (auto simp: startswith_def)
  have ns: "\<not> isspace (CHR ''v'')" by (simp add: isspace_def)
  have s: "strip v = CHR ''v'' # rev (dropWhile isspace (rev w))"
    unfolding v using ns by (rule strip_nonspace_Cons)
  have a: "is_readthedocs env \<Longrightarrow> version_source env git = Some v"
    using assms(1) v by (simp add: version_source_def truthy_def)
  have b: "\<not> is_readthedocs env \<Longrightarrow>
      version_source (env\<lparr>VERSION := None\<rparr>) git = version_source env git"
    by (simp add: version_source_def is_readthedocs_def)
  show ?thesis
    using a b s v by (simp add: get_project_version_def startswith_def)
qed

text \<open>
  Claim C6. For every value of \<open>VERSION\<close> that starts with the prefix character \<open>v\<close>,
  the resolved version is that value, trimmed, without the leading \<open>v\<close>; the docstring
  of \<open>get_project_version\<close> and the line it prints say that the version is taken from
  \<open>VERSION\<close>. The code does not do so off Read the Docs: with \<open>READTHEDOCS\<close> unset,
  \<open>VERSION\<close> set to \<open>v1.2.3\<close> and the git tag \<open>v0.9.0\<close>, the variable is never read and
  the resolved version is \<open>0.9.0\<close>, that of the git tag.
\<close>

theorem version_from_git_off_readthedocs:
  "\<not> is_readthedocs \<lparr>READTHEDOCS = None, VERSION = Some ''v1.2.3'', READTHEDOCS_VERSION = None\<rparr> \<and>
   VERSION \<lparr>READTHEDOCS = None, VERSION = Some ''v1.2.3'', READTHEDOCS_VERSION = None\<rparr> =
     Some ''v1.2.3'' \<and>
   get_project_version_from_git (Completed 0 (''v0.9.0'' @ [nl])) = ''v0.9.0'' \<and>
   get_project_version
     \<lparr>READTHEDOCS = None, VERSION = Some ''v1.2.3'', READTHEDOCS_VERSION = None\<rparr>
     (Completed 0 (''v0.9.0'' @ [nl])) = ''0.9.0''"
  by (simp add: get_project_version_def version_source_def is_readthedocs_def
      get_project_version_from_git_def strip_def isspace_def startswith_def nl_def)
section \<open>A failing documentation command\<close>

text \<open>
  Claim C7. For every module name, when the external command raises, times out or
  returns a non-zero status, \<open>get_go_doc_for_package\<close> returns the empty string and
  prints one warning. The run goes on rather than aborting: for a module that exists,
  has Go files and whose page can be written, \<open>create_module_documentation\<close> raises
  nothing, writes the page, which then holds the heading only, and prints its line of
  success after the warning; the loop over the modules then goes on to the modules
  after the failing one; and whatever \<open>go doc\<close> does for each module, a loop in which
  every page can be written visits every module and ends without an exception.
\<close>

theorem go_doc_failure_is_soft:
  assumes "go_doc_failed (go_doc w)"
  shows "fst (get_go_doc_for_package module_name (go_doc w)) = [] \<and>
         (\<exists>t. snd (get_go_doc_for_package module_name (go_doc w)) = [Warn t]) \<and>
         (module_exists w \<and> has_go_files w \<and> file_writable w \<and>
          title_in_range module_name \<longrightarrow>
            create_module_documentation module_name w =
              (None, Some (module_name @ ''.md'', ''# '' @ title module_name @ [nl, nl]),
               snd (get_go_doc_for_package module_name (go_doc w)) @
               [Done (''Documentation created for module '' @ module_name @
                      '' using go doc'')])) \<and>
         (world module_name = w \<and> file_writable w \<longrightarrow>
            create_modules_documentation world (module_name # after) =
              (snd (create_module_documentation module_name w) #
                 fst (create_modules_documentation world after),
               snd (create_modules_documentation world after))) \<and>
         ((\<forall>m\<in>set modules. file_writable (world m)) \<longrightarrow>
            create_modules_documentation world modules =
              (map (\<lambda>m. snd (create_module_documentation m (world m))) modules, None))"
proof -
  note g = get_go_doc_failed [OF assms, of "module_name"]
  have page: "create_module_documentation module_name w =
      (None, Some (module_name @ ''.md'', ''# '' @ title module_name @ [nl, nl]),
       snd (get_go_doc_for_package module_name (go_doc w)) @
       [Done (''Documentation created for module '' @ module_name @ '' using go doc'')])"
    if "module_exists w" "has_go_files w" "file_writable w"
  proof -
    from g obtain t where "get_go_doc_for_package module_name (go_doc w) = ([], [Warn t])"
      by (cases "get_go_doc_for_package module_name (go_doc w)") auto
    with that show ?thesis
      by (simp add: create_module_documentation_def)
  qed
  have loop: "create_modules_documentation world (module_name # after) =
      (snd (create_module_documentation module_name w) #
         fst (create_modules_documentation world after),
       snd (create_modules_documentation world after))"
    if "world module_name = w" "file_writable w"
  proof -
    from that(2) have "fst (create_module_documentation module_name w) = None"
      by (rule create_module_documentation_no_exception)
    then obtain d where "create_module_documentation module_name w = (None, d)"
      by (cases "create_module_documentation module_name w") auto
    with that(1) show ?thesis by (simp split: prod.splits)
  qed
  from g page loop create_modules_documentation_all [of modules world]
  show ?thesis by blast
qed

theorem go_doc_failure_is_soft_witness:
  "go_doc_failed (Completed 1 ''exit status 1'') \<and>
   get_go_doc_for_package ''compute'' (Completed 1 ''exit status 1'') =
     ([], [Warn ''No package documentation found for compute'']) \<and>
   create_module_documentation ''compute''
     \<lparr>module_exists = True, has_go_files = True, go_doc = Completed 1 ''exit status 1'',
      file_writable = True\<rparr> =
     (None, Some (''compute.md'', ''# Compute'' @ [nl, nl]),
      [Warn ''No package documentation found for compute'',
       Done ''Documentation created for module compute using go doc'']) \<and>
   length (fst (create_modules_documentation
     (\<lambda>m. \<lparr>module_exists = True, has_go_files = True, go_doc = Completed 1 ''exit status 1'',
            file_writable = True\<rparr>) [''compute'', ''network'', ''audit''])) = 3 \<and>
   snd (create_modules_documentation
     (\<lambda>m. \<lparr>module_exists = True, has_go_files = True, go_doc = Completed 1 ''exit status 1'',
            file_writable = True\<rparr>) [''compute'', ''network'', ''audit'']) = None"
proof -
  define w where "w = \<lparr>module_exists = True, has_go_files = True,
    go_doc = Completed 1 ''exit status 1'', file_writable = True\<rparr>"
  have f: "go_doc_failed (go_doc w)" by (simp add: w_def)
  have e: "module_exists w \<and> has_go_files w \<and> file_writable w \<and> title_in_range ''compute''"
    by (simp add: w_def title_in_range_def)
  have a: "\<forall>m\<in>set [''compute'', ''network'', ''audit'']. file_writable ((\<lambda>m. w) m)"
    by (simp add: w_def)
  have g: "get_go_doc_for_package ''compute'' (go_doc w) =
      ([], [Warn ''No package documentation found for compute''])"
    by (simp add: w_def get_go_doc_for_package_def)
  have n: "title ''compute'' = ''Compute''" by code_simp
  note t = go_doc_failure_is_soft [OF f, of "''compute''" "\<lambda>m. w" "[]"
      "[''compute'', ''network'', ''audit'']"]
  from t e have "create_module_documentation ''compute'' w =
      (None, Some (''compute'' @ ''.md'', ''# '' @ title ''compute'' @ [nl, nl]),
       snd (get_go_doc_for_package ''compute'' (go_doc w)) @
       [Done (''Documentation created for module '' @ ''compute'' @ '' using go doc'')])"
    by blast
  then have p: "create_module_documentation ''compute'' w =
      (None, Some (''compute.md'', ''# Compute'' @ [nl, nl]),
       [Warn ''No package documentation found for compute'',
        Done ''Documentation created for module compute using go doc''])"
    unfolding n g by simp
  from t a have "create_modules_documentation (\<lambda>m. w) [''compute'', ''network'', ''audit''] =
      (map (\<lambda>m. snd (create_module_documentation m ((\<lambda>m. w) m)))
         [''compute'', ''network'', ''audit''], None)"
    by blast
  then have l: "length (fst (create_modules_documentation (\<lambda>m. w)
        [''compute'', ''network'', ''audit''])) = 3"
    and x: "snd (create_modules_documentation (\<lambda>m. w) [''compute'', ''network'', ''audit'']) = None"
    by simp_all
  from f g p l x show ?thesis
    unfolding w_def by simp
qed

section \<open>Running the output scaffolder twice\<close>

text \<open>
  Claim C9, as the code has it. With the attribute \<open>output_dir\<close> set (the generator does
  not run on Read the Docs), for every state of the output path, running
  \<open>clean_output_directory\<close> twice leaves the path as running it once does. After a run
  an empty directory is at the path when nothing was there and a directory can be
  created, and when a directory was there that can be removed with all that it holds.
  Otherwise the exception raised is caught and printed in a warning and the path keeps
  what could not be removed: a regular file or a symbolic link stays as it was, and a
  directory keeps the entries from the first one on whose removal failed.
\<close>

theorem clean_output_directory_idempotent:
  "fst (clean_output_directory True w (fst (clean_output_directory True w p))) =
     fst (clean_output_directory True w p) \<and>
   (p = None \<and> w \<longrightarrow>
      clean_output_directory True w p = (Some (Dir True []), cleaning_log None)) \<and>
   (p = Some (Dir r es) \<and> r \<and> rm_entries es = [] \<and> w \<longrightarrow>
      clean_output_directory True w p = (Some (Dir True []), cleaning_log None)) \<and>
   (p = Some (Dir r es) \<and> rm_node (Dir r es) = Some n \<longrightarrow>
      clean_output_directory True w p = (Some n, cleaning_log (Some OSError)) \<and>
      (rm_entries es = [] \<longrightarrow> n = Dir r [])) \<and>
   (p = Some (File r s) \<longrightarrow>
      clean_output_directory True w p = (p, cleaning_log (Some NotADirectoryError))) \<and>
   (p = Some (Symlink r k) \<longrightarrow>
      clean_output_directory True w p =
        (p, cleaning_log (Some (if k = Dangling then FileExistsError else OSError))))"
proof -
  have idem: "fst (clean_output_directory True w (fst (clean_output_directory True w p))) =
     fst (clean_output_directory True w p)"
  proof (cases p)
    case None
    then show ?thesis by (simp add: clean_output_defs)
  next
    case (Some x)
    show ?thesis
    proof (cases x)
      case (File r' s')
      with Some show ?thesis by (simp add: clean_output_defs)
    next
      case (Symlink r' k')
      with Some show ?thesis by (cases k') (simp_all add: clean_output_defs)
    next
      case (Dir r' es')
      show ?thesis
      proof (cases "rm_node (Dir r' es')")
        case None
        have "rm_node (Dir True []) = None" by simp
        with None Some Dir show ?thesis
          by (simp add: clean_output_defs del: rm_node.simps)
      next
        case left: (Some n')
        then obtain es'' where n': "n' = Dir r' es''"
          using rm_node_Dir_left by blast
        from left have again: "rm_node n' = Some n'"
          using rm_node_left(1) by blast
        from Some Dir left have 1: "fst (clean_output_directory True w p) = Some n'"
          by (simp add: clean_output_defs del: rm_node.simps)
        from again n' have "fst (clean_output_directory True w (Some n')) = Some n'"
          by (simp add: clean_output_defs del: rm_node.simps)
        with 1 show ?thesis by simp
      qed
    qed
  qed
  have absent: "clean_output_directory True w p = (Some (Dir True []), cleaning_log None)"
    if "p = None" "w"
    using that by (simp add: clean_output_defs)
  have emptied: "clean_output_directory True w p = (Some (Dir True []), cleaning_log None)"
    if "p = Some (Dir r es)" "r" "rm_entries es = []" "w"
    using that by (simp add: clean_output_defs)
  have left: "clean_output_directory True w p = (Some n, cleaning_log (Some OSError)) \<and>
      (rm_entries es = [] \<longrightarrow> n = Dir r [])"
    if "p = Some (Dir r es)" "rm_node (Dir r es) = Some n"
    using that by (auto simp: clean_output_defs split: list.splits if_splits)
  have regular: "clean_output_directory True w p = (p, cleaning_log (Some NotADirectoryError))"
    if "p = Some (File r s)"
    using that by (simp add: clean_output_defs)
  have link: "clean_output_directory True w p =
      (p, cleaning_log (Some (if k = Dangling then FileExistsError else OSError)))"
    if "p = Some (Symlink r k)"
    using that by (cases k) (simp_all add: clean_output_defs)
  from idem absent emptied left regular link show ?thesis by blast
qed

theorem clean_output_directory_idempotent_witness:
  "rm_entries [(''old.md'', File True ''x''), (''sub'', Dir True [(''y.md'', File True ''y'')])] = [] \<and>
   clean_output_directory True True
     (Some (Dir True [(''old.md'', File True ''x''),
                      (''sub'', Dir True [(''y.md'', File True ''y'')])])) =
     (Some (Dir True []), cleaning_log None) \<and>
   clean_output_directory True True None = (Some (Dir True []), cleaning_log None) \<and>
   fst (clean_output_directory True True (fst (clean_output_directory True True
     (Some (Dir True [(''old.md'', File True ''x''),
                      (''sub'', Dir True [(''y.md'', File True ''y'')])]))))) =
     fst (clean_output_directory True True
       (Some (Dir True [(''old.md'', File True ''x''),
                        (''sub'', Dir True [(''y.md'', File True ''y'')])])))"
proof -
  define es where
    "es = [(''old.md'', File True ''x''), (''sub'', Dir True [(''y.md'', File True ''y'')])]"
  have e: "rm_entries es = []" by (simp add: es_def)
  note t = clean_output_directory_idempotent [of True "Some (Dir True es)" True es]
  from t e have 1: "clean_output_directory True True (Some (Dir True es)) =
      (Some (Dir True []), cleaning_log None)"
    by blast
  from t have 2: "fst (clean_output_directory True True
      (fst (clean_output_directory True True (Some (Dir True es))))) =
      fst (clean_output_directory True True (Some (Dir True es)))"
    by blast
  have 3: "clean_output_directory True True None = (Some (Dir True []), cleaning_log None)"
    using clean_output_directory_idempotent [of True None] by blast
  from e 1 2 3 show ?thesis unfolding es_def by blast
qed

text \<open>The claim as the specification states it fails in its last part: with a regular
  file or a symbolic link to a directory at the output path, or with an entry that
  cannot be removed, a run does not leave an empty directory.\<close>

theorem clean_output_directory_counterexample:
  "fst (clean_output_directory True True (Some (File True ''notes''))) =
     Some (File True ''notes'') \<and>
   fst (clean_output_directory True True (Some (Symlink True To_directory))) =
     Some (Symlink True To_directory) \<and>
   fst (clean_output_directory True True
     (Some (Dir True [(''a.md'', File True ''x''), (''b.md'', File False ''y'')]))) =
     Some (Dir True [(''b.md'', File False ''y'')])"
  by (simp add: clean_output_defs)

section \<open>The first line is discarded\<close>

text \<open>
  Claim C10. For every non-empty input the cleaner discards the first line before any
  other rule applies: the output does not depend on what the first line is, and an
  input that consists of one line only, whatever it holds, is cleaned to the empty
  string.
\<close>

theorem first_line_discarded:
  assumes "nl \<notin> set h1" and "nl \<notin> set h2"
  shows "input_lines (h1 @ nl # r) = split_nl r \<and>
         clean_go_doc_output (h1 @ nl # r) = clean_go_doc_output (h2 @ nl # r) \<and>
         clean_go_doc_output h1 = []"
  using assms
  by (simp add: clean_go_doc_output_def input_lines_def split_nl_append split_nl_single
      cleaner_at_end_def clean_loop_def close_remaining_def cleaner_init_def strip_def)

theorem first_line_discarded_witness:
  "input_lines (''func Lost()'' @ nl # ''plain text'') = split_nl ''plain text'' \<and>
   clean_go_doc_output (''func Lost()'' @ nl # ''plain text'') =
     clean_go_doc_output ([] @ nl # ''plain text'') \<and>
   clean_go_doc_output ''func Lost()'' = []"
  using first_line_discarded [of "''func Lost()''" "[]" "''plain text''"]
  by (simp add: nl_def)


end
